theory Spec2Isabelle
  imports Main
begin

section \<open>Data model of \<open>mephisto/internal/kernels.hpp\<close>\<close>

text \<open>
  An object of the result type \<open>TRes\<close> in memory: either it was never assigned
  (\<open>Uninit\<close>, what \<open>allocVar\<close> hands out) or it holds a value. The tree fold of the
  kernel combines two objects with the built-in \<open>+\<close> of \<open>TRes\<close>; a sum with an
  unassigned operand is itself indeterminate.
\<close>

datatype 'r cell = Uninit | Val 'r

fun cell_plus :: "'r::plus cell \<Rightarrow> 'r cell \<Rightarrow> 'r cell" where
  "cell_plus (Val a) (Val b) = Val (a + b)"
| "cell_plus _ _ = Uninit"

text \<open>\<open>static constexpr std::size_t TBlockSize = 256;\<close>\<close>

definition TBlockSize :: nat where
  "TBlockSize = 256"

text \<open>
  \<open>cheapArray<T, size>\<close> is a plain array \<open>T data[size]\<close>; the kernel obtains one of
  capacity \<open>TBlockSize\<close> per block from \<open>allocVar\<close>, with no initialiser.
\<close>

type_synonym 'r cheapArray = "'r cell list"

definition allocVar :: "'r cheapArray" where
  "allocVar = replicate TBlockSize Uninit"

text \<open>
  The accelerator object \<open>acc\<close> of one lane, reduced to what the kernel asks of it:
  the work division (\<open>getWorkDiv\<close>) and the lane's position (\<open>getIdx\<close>). The grid
  thread index of alpaka is the block index times the block's thread extent plus the
  thread index.
\<close>

record acc =
  gridBlockExtent :: nat
  blockThreadExtent :: nat
  gridBlockIdx :: nat
  blockThreadIdx :: nat

text \<open>\<open>static_cast<uint32_t>\<close> of an index.\<close>

definition u32 :: "nat \<Rightarrow> nat" where
  "u32 x = x mod 2 ^ 32"

definition blockIndex :: "acc \<Rightarrow> nat" where
  "blockIndex a = u32 (gridBlockIdx a)"

definition threadIndex :: "acc \<Rightarrow> nat" where
  "threadIndex a = u32 (blockThreadIdx a)"

definition gridDimension :: "acc \<Rightarrow> nat" where
  "gridDimension a = u32 (gridBlockExtent a)"

definition linearizedIndex :: "acc \<Rightarrow> nat" where
  "linearizedIndex a = u32 (gridBlockIdx a * blockThreadExtent a + blockThreadIdx a)"

text \<open>
  Modelled from the spec: \<open>IteratorCpu\<close> of \<open>mephisto/internal/iterator.hpp\<close>, which is
  not among the sources. Section 4.1 of the specification: an iterator is built from a
  start index, a stride and an exclusive bound; advancing adds the stride; it is at its
  end when the index has reached the bound; dereferencing yields the element at the
  index.
\<close>

record iter =
  pos :: nat
  stride :: nat
  bound :: nat

definition at_end :: "iter \<Rightarrow> bool" where
  "at_end it = (bound it \<le> pos it)"

definition advance :: "iter \<Rightarrow> iter" where
  "advance it = it\<lparr>pos := pos it + stride it\<rparr>"

text \<open>
  \<open>IteratorCpu<TAcc, TElem> begin(acc, source, linearizedIndex,
  gridDimension * TBlockSize, n);\<close>
\<close>

definition begin_iter :: "acc \<Rightarrow> nat \<Rightarrow> iter" where
  "begin_iter a n =
     \<lparr>pos = linearizedIndex a, stride = gridDimension a * TBlockSize, bound = n\<rparr>"

section \<open>ReduceKernel\<close>

text \<open>
  The member \<open>func\<close> is called as \<open>func(blockIndex, 0, sdata.data, &(*it++))\<close>: it gets
  the block index, the constant 0, the whole shared array and the visited element, and
  its return value is dropped, so all it contributes is what it does to the shared
  array: a function from the arguments it is handed to the new content of the array.
  \<open>source\<close> is the input memory, addressed by element index. Memory is addressed
  without a bound; whether an index lies inside what the caller allocated is not
  modelled.
\<close>

type_synonym ('r, 'e) func = "nat \<Rightarrow> nat \<Rightarrow> 'r cheapArray \<Rightarrow> 'e \<Rightarrow> 'r cheapArray"

text \<open>
  \<open>while (it < it.end()) func(blockIndex, 0, sdata.data, &(*it++));\<close>
  The loop does not end when the stride is 0 and the start is below the bound; the
  result \<open>None\<close> stands for that.
\<close>

partial_function (option) lane_fold ::
  "('r, 'e) func \<Rightarrow> nat \<Rightarrow> (nat \<Rightarrow> 'e) \<Rightarrow> iter \<Rightarrow> 'r cheapArray \<Rightarrow> 'r cheapArray option"
where
  "lane_fold func bI source it sdata =
     (if at_end it then Some sdata
      else lane_fold func bI source (advance it) (func bI 0 sdata (source (pos it))))"

text \<open>
  Level 1 for the lanes of one block, one lane after the other in the order given
  (the order of a sequential back end), all on the block's shared array.
\<close>

fun level1 ::
  "('r, 'e) func \<Rightarrow> (nat \<Rightarrow> 'e) \<Rightarrow> nat \<Rightarrow> acc list \<Rightarrow> 'r cheapArray \<Rightarrow> 'r cheapArray option"
where
  "level1 func source n [] sdata = Some sdata"
| "level1 func source n (a # lanes) sdata =
     (case lane_fold func (blockIndex a) source (begin_iter a n) sdata of
        None \<Rightarrow> None
      | Some sdata' \<Rightarrow> level1 func source n lanes sdata')"

text \<open>
  The shared state of a block during level 2: the array, and how many block barriers
  (\<open>syncBlockThreads\<close>) all its lanes have passed.
\<close>

record 'r block_state =
  sdata :: "'r cheapArray"
  barriers :: nat

definition syncBlockThreads :: "'r block_state \<Rightarrow> 'r block_state" where
  "syncBlockThreads st = st\<lparr>barriers := barriers st + 1\<rparr>"

text \<open>
  The guard \<open>cond\<close> of the tree fold. The sum with \<open>blockIndex\<close> is taken in
  \<open>std::size_t\<close>; \<open>threadIndex + currentBlockSizeUp\<close> is evaluated only after
  \<open>threadIndex < currentBlockSizeUp\<close> held, so none of the sums wraps.
\<close>

definition cond :: "nat \<Rightarrow> nat \<Rightarrow> nat \<Rightarrow> nat \<Rightarrow> bool" where
  "cond bI tI currentBlockSizeUp n =
     (tI < currentBlockSizeUp
      \<and> tI + currentBlockSizeUp < TBlockSize
      \<and> bI * TBlockSize + tI + currentBlockSizeUp < n
      \<and> tI < n)"

text \<open>
  \<open>if (cond) sdata[threadIndex] = sdata[threadIndex] + sdata[threadIndex + currentBlockSizeUp];\<close>
\<close>

definition tree_step :: "nat \<Rightarrow> nat \<Rightarrow> nat \<Rightarrow> nat \<Rightarrow> 'r::plus cheapArray \<Rightarrow> 'r cheapArray" where
  "tree_step bI tI currentBlockSizeUp n sd =
     (if cond bI tI currentBlockSizeUp n
      then sd[tI := cell_plus (sd ! tI) (sd ! (tI + currentBlockSizeUp))]
      else sd)"

text \<open>One round of the loop body for all lanes of the block, then the barrier.\<close>

definition tree_round :: "nat \<Rightarrow> acc list \<Rightarrow> nat \<Rightarrow> 'r::plus block_state \<Rightarrow> 'r block_state" where
  "tree_round n lanes currentBlockSizeUp st =
     syncBlockThreads
       (st\<lparr>sdata := foldl (\<lambda>sd a. tree_step (blockIndex a) (threadIndex a) currentBlockSizeUp n sd)
                         (sdata st) lanes\<rparr>)"

text \<open>
  The loop header
  \<open>for (currentBlockSize = TBlockSize, currentBlockSizeUp = (TBlockSize + 1) / 2;
        currentBlockSize > 1;
        currentBlockSize = currentBlockSize / 2,
        currentBlockSizeUp = (currentBlockSize + 1) / 2)\<close>
  with its body as a parameter; the body sees both loop variables.
\<close>

function for_rounds :: "nat \<Rightarrow> nat \<Rightarrow> (nat \<Rightarrow> nat \<Rightarrow> 's \<Rightarrow> 's) \<Rightarrow> 's \<Rightarrow> 's" where
  "for_rounds currentBlockSize currentBlockSizeUp body s =
     (if currentBlockSize > 1
      then for_rounds (currentBlockSize div 2) ((currentBlockSize div 2 + 1) div 2) body
             (body currentBlockSize currentBlockSizeUp s)
      else s)"
  by pat_completeness auto
termination
  by (relation "measure (\<lambda>(c, u, b, s). c)") auto

definition tree_fold :: "nat \<Rightarrow> acc list \<Rightarrow> 'r::plus block_state \<Rightarrow> 'r block_state" where
  "tree_fold n lanes st =
     for_rounds TBlockSize ((TBlockSize + 1) div 2)
       (\<lambda>currentBlockSize currentBlockSizeUp. tree_round n lanes currentBlockSizeUp) st"

text \<open>
  \<open>if (threadIndex == 0 && threadIndex < n) destination[block_index] = sdata[0];\<close>
  The destination memory is addressed by slot index; \<open>block_index\<close> is the first
  argument of the kernel.
\<close>

definition store_result ::
  "nat \<Rightarrow> nat \<Rightarrow> nat \<Rightarrow> 'r cheapArray \<Rightarrow> (nat \<Rightarrow> 'r cell) \<Rightarrow> (nat \<Rightarrow> 'r cell)"
where
  "store_result block_index tI n sd destination =
     (if tI = 0 \<and> tI < n then destination(block_index := sd ! 0) else destination)"

text \<open>
  The kernel for the lanes of one block. The barriers cut the body into phases, and a
  lane enters a phase only when all lanes of its block have left the one before; so the
  block is run phase by phase: level 1, the barrier, the rounds of the tree fold with
  their barriers, the store. Every block gets a shared array of its own from
  \<open>allocVar\<close>. The \<open>printf\<close> calls between the first barrier and the tree fold
  change nothing.
\<close>

definition ReduceKernel ::
  "('r::plus, 'e) func \<Rightarrow> nat \<Rightarrow> (nat \<Rightarrow> 'e) \<Rightarrow> nat \<Rightarrow> acc list \<Rightarrow> (nat \<Rightarrow> 'r cell)
     \<Rightarrow> (nat \<Rightarrow> 'r cell) option"
where
  "ReduceKernel func block_index source n lanes destination =
     (case level1 func source n lanes allocVar of
        None \<Rightarrow> None
      | Some sd1 \<Rightarrow>
          let st = tree_fold n lanes (syncBlockThreads \<lparr>sdata = sd1, barriers = 0\<rparr>)
          in Some (foldl (\<lambda>d a. store_result block_index (threadIndex a) n (sdata st) d)
                     destination lanes))"

text \<open>
  A launch with a work division of \<open>G\<close> blocks of \<open>B\<close> threads: the lanes of block
  \<open>b\<close>, and the blocks one after the other, each with a shared array of its own.
\<close>

definition block_lanes :: "nat \<Rightarrow> nat \<Rightarrow> nat \<Rightarrow> acc list" where
  "block_lanes G B b =
     map (\<lambda>t. \<lparr>gridBlockExtent = G, blockThreadExtent = B, gridBlockIdx = b, blockThreadIdx = t\<rparr>)
       [0..<B]"

fun launch_blocks ::
  "('r::plus, 'e) func \<Rightarrow> nat \<Rightarrow> (nat \<Rightarrow> 'e) \<Rightarrow> nat \<Rightarrow> nat \<Rightarrow> nat \<Rightarrow> nat list
     \<Rightarrow> (nat \<Rightarrow> 'r cell) \<Rightarrow> (nat \<Rightarrow> 'r cell) option"
where
  "launch_blocks func block_index source n G B [] destination = Some destination"
| "launch_blocks func block_index source n G B (b # bs) destination =
     (case ReduceKernel func block_index source n (block_lanes G B b) destination of
        None \<Rightarrow> None
      | Some d \<Rightarrow> launch_blocks func block_index source n G B bs d)"

definition launch ::
  "('r::plus, 'e) func \<Rightarrow> nat \<Rightarrow> (nat \<Rightarrow> 'e) \<Rightarrow> nat \<Rightarrow> nat \<Rightarrow> nat
     \<Rightarrow> (nat \<Rightarrow> 'r cell) \<Rightarrow> (nat \<Rightarrow> 'r cell) option"
where
  "launch func block_index source n G B destination =
     launch_blocks func block_index source n G B [0..<G] destination"

text \<open>
  The indices a lane's loop dereferences, in order, when the stride is positive (the
  loop of \<open>lane_fold\<close> read as a list).
\<close>

function lane_visits :: "iter \<Rightarrow> nat list" where
  "lane_visits it =
     (if at_end it \<or> stride it = 0 then [] else pos it # lane_visits (advance it))"
  by pat_completeness auto
termination
  by (relation "measure (\<lambda>it. bound it - pos it)") (auto simp: at_end_def advance_def)

declare lane_visits.simps [simp del]
declare for_rounds.simps [simp del]

text \<open>All lanes of a launch, block after block.\<close>

definition launch_lanes :: "nat \<Rightarrow> nat \<Rightarrow> acc list" where
  "launch_lanes G B = concat (map (block_lanes G B) [0..<G])"

text \<open>How often index \<open>i\<close> is dereferenced by the lanes of a launch, all lanes together.\<close>

definition visit_count :: "nat \<Rightarrow> nat \<Rightarrow> nat \<Rightarrow> nat \<Rightarrow> nat" where
  "visit_count G B n i =
     count_list (concat (map (\<lambda>a. lane_visits (begin_iter a n)) (launch_lanes G B))) i"

text \<open>
  The pairs \<open>(currentBlockSize, currentBlockSizeUp)\<close> the loop header runs through,
  in order.
\<close>

definition round_list :: "(nat \<times> nat) list" where
  "round_list =
     for_rounds TBlockSize ((TBlockSize + 1) div 2) (\<lambda>c u tr. tr @ [(c, u)]) []"

text \<open>
  The slots of the shared array a lane reads after the first barrier:
  \<open>for(size_t i = 0; i < TBlockSize; i++) printf("%d ", sdata[i]);\<close> reads every
  slot, and a round of the tree fold reads the lane's slot and its partner's when the
  guard holds.
\<close>

definition print_reads :: "nat list" where
  "print_reads = [0..<TBlockSize]"

definition tree_reads :: "nat \<Rightarrow> nat \<Rightarrow> nat \<Rightarrow> nat \<Rightarrow> nat list" where
  "tree_reads bI tI currentBlockSizeUp n =
     (if cond bI tI currentBlockSizeUp n then [tI, tI + currentBlockSizeUp] else [])"

text \<open>
  The value a block hands to the store: slot 0 of its shared array after the tree fold.
\<close>

definition block_result ::
  "('r::plus, 'e) func \<Rightarrow> (nat \<Rightarrow> 'e) \<Rightarrow> nat \<Rightarrow> acc list \<Rightarrow> 'r cell option"
where
  "block_result func source n lanes =
     (case level1 func source n lanes allocVar of
        None \<Rightarrow> None
      | Some sd1 \<Rightarrow>
          Some (sdata (tree_fold n lanes (syncBlockThreads \<lparr>sdata = sd1, barriers = 0\<rparr>)) ! 0))"

text \<open>
  The tree-fold step as the specification words it, for comparison: the same guard,
  with the combining function \<open>f\<close> of the reduction in place of \<open>+\<close>.
\<close>

definition spec_tree_step ::
  "('r \<Rightarrow> 'r \<Rightarrow> 'r) \<Rightarrow> nat \<Rightarrow> nat \<Rightarrow> nat \<Rightarrow> nat \<Rightarrow> nat \<Rightarrow> 'r cheapArray \<Rightarrow> 'r cheapArray"
where
  "spec_tree_step f B bI tI currentBlockSizeUp n sd =
     (if tI < currentBlockSizeUp \<and> tI + currentBlockSizeUp < B
         \<and> bI * B + tI + currentBlockSizeUp < n \<and> tI < n
      then sd[tI := (case (sd ! tI, sd ! (tI + currentBlockSizeUp)) of
                       (Val a, Val b) \<Rightarrow> Val (f a b)
                     | _ \<Rightarrow> Uninit)]
      else sd)"

text \<open>
  A callable of the shape \<open>func\<close> has, used as a concrete argument in the examples: it
  adds the element to the slot whose index it is handed, and assigns the element when
  the slot holds nothing yet.
\<close>

definition accumulate :: "('r::plus, 'r) func" where
  "accumulate bI idx sd x =
     sd[idx := (case sd ! idx of Uninit \<Rightarrow> Val x | Val a \<Rightarrow> Val (a + x))]"

text \<open>
  Another callable of that shape, for elements that carry the slot they belong to: it
  combines the element's value into that slot with a function \<open>f\<close>, and assigns the
  value when the slot holds nothing yet. It ignores the slot index it is handed.
\<close>

definition combine_at :: "('r \<Rightarrow> 'r \<Rightarrow> 'r) \<Rightarrow> ('r, nat \<times> 'r) func" where
  "combine_at f bI idx sd e =
     sd[fst e := (case sd ! fst e of Uninit \<Rightarrow> Val (snd e) | Val a \<Rightarrow> Val (f a (snd e)))]"

section \<open>UniversalKernel\<close>

text \<open>
  \<open>_func(acc, block_index, res, A);\<close> is the whole body; the member \<open>_func\<close> is
  written \<open>func0\<close> here. What it does is a change of the memory \<open>'w\<close> it works on.
  A launch runs the body once in every lane.
\<close>

definition UniversalKernel ::
  "(acc \<Rightarrow> nat \<Rightarrow> 'd \<Rightarrow> 's \<Rightarrow> 'w \<Rightarrow> 'w) \<Rightarrow> acc \<Rightarrow> nat \<Rightarrow> 's \<Rightarrow> 'd \<Rightarrow> nat \<Rightarrow> 'w \<Rightarrow> 'w"
where
  "UniversalKernel func0 a block_index A res numElements w = func0 a block_index res A w"

definition launch_universal ::
  "(acc \<Rightarrow> nat \<Rightarrow> 'd \<Rightarrow> 's \<Rightarrow> 'w \<Rightarrow> 'w) \<Rightarrow> nat \<Rightarrow> 's \<Rightarrow> 'd \<Rightarrow> nat \<Rightarrow> nat \<Rightarrow> nat \<Rightarrow> 'w \<Rightarrow> 'w"
where
  "launch_universal func0 block_index A res numElements G B w =
     foldl (\<lambda>w' a. UniversalKernel func0 a block_index A res numElements w') w
       (launch_lanes G B)"

section \<open>The Executor\<close>

text \<open>
  Modelled from the spec: \<open>Executor.run\<close> for a reduction (the class
  \<open>AlpakaExecutor\<close> of \<open>mephisto/execution\<close> is not among the sources). Section 4.4: a
  problem size of 0 short-circuits to the identity without a launch; otherwise the grid
  has \<open>ceil(n / B)\<close> blocks, a buffer of one slot per block is allocated, one kernel
  is launched, and the slots of the buffer that hold a contribution are folded into the
  result with the combining function. The record counts the launches and the
  applications of the combining function.
\<close>

record 'r run =
  result :: 'r
  launches :: nat
  combines :: nat

definition contributions :: "(nat \<Rightarrow> 'r cell) \<Rightarrow> nat \<Rightarrow> 'r list" where
  "contributions buf G = concat (map (\<lambda>j. case buf j of Uninit \<Rightarrow> [] | Val v \<Rightarrow> [v]) [0..<G])"

definition Executor_run ::
  "('r \<Rightarrow> 'r \<Rightarrow> 'r) \<Rightarrow> 'r::plus \<Rightarrow> ('r, 'e) func \<Rightarrow> nat \<Rightarrow> (nat \<Rightarrow> 'e) \<Rightarrow> nat \<Rightarrow> 'r run option"
where
  "Executor_run f e func block_index source n =
     (if n = 0 then Some \<lparr>result = e, launches = 0, combines = 0\<rparr>
      else
        let G = (n + TBlockSize - 1) div TBlockSize in
        case launch func block_index source n G TBlockSize (\<lambda>j. Uninit) of
          None \<Rightarrow> None
        | Some buf \<Rightarrow>
            Some \<lparr>result = foldl f e (contributions buf G), launches = 1,
                  combines = length (contributions buf G)\<rparr>)"

section \<open>Lemmas\<close>

lemma TBlockSize_pos: "0 < TBlockSize"
  by (simp add: TBlockSize_def)

lemma lane_fold_at_end: "at_end it \<Longrightarrow> lane_fold func bI source it sd = Some sd"
  by (subst lane_fold.simps) simp

lemma lane_fold_visits:
  "0 < stride it \<Longrightarrow>
   lane_fold func bI source it sd = Some (foldl (\<lambda>s i. func bI 0 s (source i)) sd (lane_visits it))"
proof (induction it arbitrary: sd rule: lane_visits.induct)
  case (1 it)
  show ?case
  proof (cases "at_end it")
    case True
    then show ?thesis
      by (subst lane_fold.simps, subst lane_visits.simps) simp
  next
    case False
    have s: "0 < stride (advance it)" using "1.prems" by (simp add: advance_def)
    from False "1.prems" have "lane_fold func bI source (advance it) (func bI 0 sd (source (pos it)))
       = Some (foldl (\<lambda>s i. func bI 0 s (source i)) (func bI 0 sd (source (pos it))) (lane_visits (advance it)))"
      using "1.IH"[OF _ s] by simp
    with False "1.prems" show ?thesis
      by (subst lane_fold.simps, subst lane_visits.simps) simp
  qed
qed

lemma dvd_step_nat:
  fixes p s i :: nat
  assumes "p < i"
  shows "s dvd (i - p) \<longleftrightarrow> p + s \<le> i \<and> s dvd (i - (p + s))"
proof
  assume d: "s dvd (i - p)"
  from assms have "0 < i - p" by simp
  with d have le: "s \<le> i - p" by (simp add: dvd_imp_le)
  obtain k where k: "i - p = s * k" using d by (auto simp: dvd_def)
  with \<open>0 < i - p\<close> have "0 < k" by (cases k) auto
  then have "(i - p) - s = s * (k - 1)" using k by (simp add: right_diff_distrib')
  then have "s dvd (i - p) - s" by simp
  moreover have "(i - p) - s = i - (p + s)" by simp
  ultimately show "p + s \<le> i \<and> s dvd (i - (p + s))" using le assms by simp
next
  assume a: "p + s \<le> i \<and> s dvd (i - (p + s))"
  then have "i - p = (i - (p + s)) + s" by simp
  with a show "s dvd (i - p)" by (metis dvd_add_triv_right_iff)
qed

lemma count_lane_visits:
  "0 < stride it \<Longrightarrow>
   count_list (lane_visits it) i =
     (if pos it \<le> i \<and> i < bound it \<and> stride it dvd (i - pos it) then 1 else 0)"
proof (induction it rule: lane_visits.induct)
  case (1 it)
  show ?case
  proof (cases "at_end it")
    case True
    then show ?thesis
      by (subst lane_visits.simps) (auto simp: at_end_def)
  next
    case False
    have s: "0 < stride (advance it)" using "1.prems" by (simp add: advance_def)
    have IH: "count_list (lane_visits (advance it)) i =
       (if pos it + stride it \<le> i \<and> i < bound it \<and> stride it dvd (i - (pos it + stride it)) then 1 else 0)"
      using "1.IH"[OF _ s] False "1.prems" by (simp add: advance_def)
    have unf: "lane_visits it = pos it # lane_visits (advance it)"
      using False "1.prems" by (subst lane_visits.simps) simp
    consider "i < pos it" | "i = pos it" | "pos it < i" by linarith
    then show ?thesis
    proof cases
      case 1
      then show ?thesis using IH unf by simp
    next
      case 2
      then show ?thesis using IH unf False "1.prems" by (simp add: at_end_def)
    next
      case 3
      then show ?thesis using IH unf dvd_step_nat[OF 3, of "stride it"] by auto
    qed
  qed
qed

lemma u32_id: "x < 2 ^ 32 \<Longrightarrow> u32 x = x"
  by (simp add: u32_def)

lemma count_list_concat_map:
  "count_list (concat (map f xs)) i = sum_list (map (\<lambda>x. count_list (f x) i) xs)"
  by (induction xs) auto

lemma sum_list_indicator:
  "sum_list (map (\<lambda>x. if g x = r then 1 else 0) xs) = count_list (map g xs) r"
  by (induction xs) auto

lemma count_list_upt: "count_list [a..<b] r = (if a \<le> r \<and> r < b then 1 else 0)"
  by (induction b) auto

lemma map_add_upt0: "map (\<lambda>t. c + t) [0..<B] = [c..<c + B]"
  by (induction B) auto

lemma linearizedIndex_block_lanes:
  assumes "b * B + B \<le> 2 ^ 32"
  shows "map linearizedIndex (block_lanes G B b) = [b * B..<b * B + B]"
proof -
  have "map linearizedIndex (block_lanes G B b) = map (\<lambda>t. u32 (b * B + t)) [0..<B]"
    by (simp add: block_lanes_def linearizedIndex_def comp_def)
  also have "\<dots> = map (\<lambda>t. b * B + t) [0..<B]"
    using assms by (intro map_cong refl u32_id) auto
  finally show ?thesis by (simp add: map_add_upt0)
qed

lemma linearizedIndex_blocks:
  "k * B \<le> 2 ^ 32 \<Longrightarrow>
   map linearizedIndex (concat (map (block_lanes G B) [0..<k])) = [0..<k * B]"
proof (induction k)
  case 0
  then show ?case by simp
next
  case (Suc k)
  have le: "k * B + B \<le> 2 ^ 32" using Suc.prems by (simp add: add.commute)
  then have "k * B \<le> 2 ^ 32" by simp
  then have IH: "map linearizedIndex (concat (map (block_lanes G B) [0..<k])) = [0..<k * B]"
    by (rule Suc.IH)
  have "[0..<k * B] @ [k * B..<k * B + B] = [0..<k * B + B]"
    by (metis upt_add_eq_append zero_le)
  then show ?case
    using IH linearizedIndex_block_lanes[OF le, of G] by (simp add: add.commute)
qed

lemma linearizedIndex_launch_lanes:
  "G * B \<le> 2 ^ 32 \<Longrightarrow> map linearizedIndex (launch_lanes G B) = [0..<G * B]"
  unfolding launch_lanes_def by (rule linearizedIndex_blocks)

lemma gridDimension_launch_lanes:
  "a \<in> set (launch_lanes G B) \<Longrightarrow> gridDimension a = u32 G"
  by (auto simp: launch_lanes_def block_lanes_def gridDimension_def)

lemma dvd_mod_pos:
  fixes p s i :: nat
  assumes "p < s"
  shows "(p \<le> i \<and> s dvd (i - p)) \<longleftrightarrow> i mod s = p"
proof
  assume a: "p \<le> i \<and> s dvd (i - p)"
  then obtain k where "i - p = s * k" by (auto simp: dvd_def)
  with a have "i = p + s * k" by simp
  with assms show "i mod s = p" by simp
next
  assume m: "i mod s = p"
  then have "p \<le> i" by (metis mod_less_eq_dividend)
  moreover have "i - p = s * (i div s)" using m by (metis minus_mod_eq_mult_div)
  ultimately show "p \<le> i \<and> s dvd (i - p)" by simp
qed

lemma round_list_eq:
  "round_list = [(256,128),(128,64),(64,32),(32,16),(16,8),(8,4),(4,2),(2,1)]"
  by (simp add: round_list_def TBlockSize_def for_rounds.simps)

lemma tree_fold_unrolled:
  "tree_fold n lanes st = foldl (\<lambda>s u. tree_round n lanes u s) st [128,64,32,16,8,4,2,1]"
  by (simp add: tree_fold_def TBlockSize_def for_rounds.simps)

lemma barriers_tree_round: "barriers (tree_round n lanes u st) = barriers st + 1"
  by (simp add: tree_round_def syncBlockThreads_def)

lemma lane_visits_ge: "i \<in> set (lane_visits it) \<Longrightarrow> pos it \<le> i"
proof (induction it rule: lane_visits.induct)
  case (1 it)
  show ?case
  proof (cases "at_end it \<or> stride it = 0")
    case True
    with "1.prems" show ?thesis by (subst (asm) lane_visits.simps) simp
  next
    case False
    then have "lane_visits it = pos it # lane_visits (advance it)"
      by (subst lane_visits.simps) simp
    with "1.prems" have "i = pos it \<or> i \<in> set (lane_visits (advance it))" by auto
    then show ?thesis
    proof
      assume "i = pos it" then show ?thesis by simp
    next
      assume "i \<in> set (lane_visits (advance it))"
      then have "pos (advance it) \<le> i" using "1.IH" False by simp
      then show ?thesis by (simp add: advance_def)
    qed
  qed
qed

lemma lane_visits_source_cong:
  assumes "\<And>i. pos it \<le> i \<Longrightarrow> s1 i = s2 i"
  shows "foldl (\<lambda>s i. func bI 0 s (s1 i)) sd (lane_visits it)
       = foldl (\<lambda>s i. func bI (0::nat) s (s2 i)) sd (lane_visits it)"
proof -
  have "\<And>sd. set xs \<subseteq> {i. pos it \<le> i} \<Longrightarrow>
      foldl (\<lambda>s i. func bI 0 s (s1 i)) sd xs = foldl (\<lambda>s i. func bI 0 s (s2 i)) sd xs" for xs
    by (induction xs) (auto simp: assms)
  then show ?thesis using lane_visits_ge by blast
qed

lemma stride_begin_iter: "0 < gridDimension a \<Longrightarrow> 0 < stride (begin_iter a n)"
  by (simp add: begin_iter_def TBlockSize_def)

lemma level1_closed:
  "\<forall>a \<in> set lanes. 0 < gridDimension a \<Longrightarrow>
   level1 func source n lanes sd =
     Some (foldl (\<lambda>s a. foldl (\<lambda>s i. func (blockIndex a) 0 s (source i)) s
                          (lane_visits (begin_iter a n))) sd lanes)"
  by (induction lanes arbitrary: sd) (auto simp: lane_fold_visits stride_begin_iter)

lemma level1_source_cong:
  assumes "\<forall>a \<in> set lanes. 0 < gridDimension a"
    and "\<forall>a \<in> set lanes. \<forall>i. linearizedIndex a \<le> i \<longrightarrow> s1 i = s2 i"
  shows "level1 func s1 n lanes sd = level1 func s2 n lanes sd"
  using assms
proof (induction lanes arbitrary: sd)
  case Nil
  then show ?case by simp
next
  case (Cons a lanes)
  have "lane_fold func (blockIndex a) s1 (begin_iter a n) sd
      = lane_fold func (blockIndex a) s2 (begin_iter a n) sd"
    using Cons.prems
    by (simp add: lane_fold_visits stride_begin_iter)
       (rule lane_visits_source_cong, simp add: begin_iter_def)
  then show ?case using Cons by (simp split: option.splits)
qed

lemma foldl_store_result:
  "foldl (\<lambda>d a. store_result bi (threadIndex a) n sd d) d lanes =
     (if 0 < n \<and> (\<exists>a \<in> set lanes. threadIndex a = 0) then d(bi := sd ! 0) else d)"
  by (induction lanes arbitrary: d) (auto simp: store_result_def)

lemma ReduceKernel_block_result:
  "ReduceKernel func bi source n lanes d =
     map_option (\<lambda>r. if 0 < n \<and> (\<exists>a \<in> set lanes. threadIndex a = 0) then d(bi := r) else d)
       (block_result func source n lanes)"
  by (simp add: ReduceKernel_def block_result_def foldl_store_result Let_def split: option.splits)

lemma block_lanes_thread0: "0 < B \<Longrightarrow> \<exists>a \<in> set (block_lanes G B b). threadIndex a = 0"
  by (auto simp: block_lanes_def threadIndex_def u32_def intro!: bexI[where x = 0])

lemma gridDimension_block_lanes: "a \<in> set (block_lanes G B b) \<Longrightarrow> gridDimension a = u32 G"
  by (auto simp: block_lanes_def gridDimension_def)

lemma block_result_returns:
  "0 < u32 G \<Longrightarrow> \<exists>r. block_result func source n (block_lanes G B b) = Some r"
  by (simp add: block_result_def level1_closed gridDimension_block_lanes)

lemma block_result_source_cong:
  assumes "0 < u32 G"
    and "\<forall>a \<in> set (block_lanes G B b). \<forall>i. linearizedIndex a \<le> i \<longrightarrow> s1 i = s2 i"
  shows "block_result func s1 n (block_lanes G B b) = block_result func s2 n (block_lanes G B b)"
proof -
  have "level1 func s1 n (block_lanes G B b) allocVar = level1 func s2 n (block_lanes G B b) allocVar"
    using assms by (intro level1_source_cong) (auto simp: gridDimension_block_lanes)
  then show ?thesis by (simp add: block_result_def)
qed

lemma launch_blocks_returns:
  "0 < u32 G \<Longrightarrow> \<exists>d'. launch_blocks func bi source n G B bs d = Some d'"
proof (induction bs arbitrary: d)
  case Nil
  then show ?case by simp
next
  case (Cons b bs)
  obtain r where "block_result func source n (block_lanes G B b) = Some r"
    using block_result_returns[OF Cons.prems] by blast
  then show ?case using Cons by (simp add: ReduceKernel_block_result)
qed

lemma launch_blocks_frame:
  "launch_blocks func bi source n G B bs d = Some d' \<Longrightarrow> j \<noteq> bi \<Longrightarrow> d' j = d j"
proof (induction bs arbitrary: d)
  case Nil
  then show ?case by simp
next
  case (Cons b bs)
  then show ?case
    by (auto simp: ReduceKernel_block_result split: option.splits if_splits)
qed

lemma launch_blocks_append:
  "launch_blocks func bi source n G B (bs @ cs) d =
     (case launch_blocks func bi source n G B bs d of
        None \<Rightarrow> None
      | Some d' \<Rightarrow> launch_blocks func bi source n G B cs d')"
  by (induction bs arbitrary: d) (auto split: option.splits)

lemma launch_blocks_last:
  assumes G: "0 < u32 G" and B: "0 < B" and n: "0 < n"
    and r: "block_result func source n (block_lanes G B b) = Some r"
  shows "launch_blocks func bi source n G B (bs @ [b]) d = Some (d(bi := r))"
proof -
  obtain d' where d': "launch_blocks func bi source n G B bs d = Some d'"
    using launch_blocks_returns[OF G] by blast
  have "d'(bi := r) = d(bi := r)"
    using launch_blocks_frame[OF d'] by (auto simp: fun_eq_iff)
  then show ?thesis
    using d' r n block_lanes_thread0[OF B]
    by (simp add: launch_blocks_append ReduceKernel_block_result)
qed

lemma grid_ge2:
  assumes "TBlockSize < n"
  shows "\<exists>k. (n + TBlockSize - 1) div TBlockSize = Suc (Suc k)"
proof -
  have "2 * TBlockSize \<le> n + TBlockSize - 1" using assms by simp
  then have "2 \<le> (n + TBlockSize - 1) div TBlockSize"
    using TBlockSize_pos by (simp add: less_eq_div_iff_mult_less_eq)
  then obtain m where "(n + TBlockSize - 1) div TBlockSize = 2 + m"
    using le_Suc_ex by blast
  then show ?thesis by simp
qed

lemma grid_fits:
  assumes "n + TBlockSize \<le> 2 ^ 32"
  shows "(n + TBlockSize - 1) div TBlockSize * TBlockSize \<le> 2 ^ 32"
proof -
  have "(n + TBlockSize - 1) div TBlockSize * TBlockSize \<le> n + TBlockSize - 1"
    by (rule div_times_less_eq_dividend)
  also have "\<dots> \<le> 2 ^ 32" using assms by linarith
  finally show ?thesis .
qed

lemma launch_ignores_first_element:
  assumes G2: "2 \<le> G" and fits: "G * TBlockSize \<le> 2 ^ 32" and n: "0 < n"
  shows "launch func bi (source(0 := x)) n G TBlockSize d = launch func bi source n G TBlockSize d"
proof -
  obtain k where k: "G = Suc k" and k1: "1 \<le> k" using G2 by (cases G) auto
  have G32: "u32 G = G" using fits by (intro u32_id) (simp add: TBlockSize_def)
  then have Gpos: "0 < u32 G" using G2 by simp
  have kB: "k * TBlockSize + TBlockSize \<le> 2 ^ 32" using fits k by (simp add: add.commute)
  have lin: "map linearizedIndex (block_lanes G TBlockSize k) = [k * TBlockSize..<k * TBlockSize + TBlockSize]"
    using kB by (rule linearizedIndex_block_lanes)
  have ge: "1 \<le> linearizedIndex a" if a: "a \<in> set (block_lanes G TBlockSize k)" for a
  proof -
    have "linearizedIndex a \<in> set (map linearizedIndex (block_lanes G TBlockSize k))" using a by simp
    then have "k * TBlockSize \<le> linearizedIndex a" unfolding lin by simp
    moreover have "1 * 1 \<le> k * TBlockSize" using k1 TBlockSize_pos by (intro mult_le_mono) auto
    ultimately show ?thesis by linarith
  qed
  have cong: "block_result func (source(0 := x)) n (block_lanes G TBlockSize k)
            = block_result func source n (block_lanes G TBlockSize k)"
  proof (rule block_result_source_cong[OF Gpos], intro ballI allI impI)
    fix a i
    assume "a \<in> set (block_lanes G TBlockSize k)" and "linearizedIndex a \<le> i"
    with ge have "i \<noteq> 0" by fastforce
    then show "(source(0 := x)) i = source i" by simp
  qed
  obtain r where r: "block_result func source n (block_lanes G TBlockSize k) = Some r"
    using block_result_returns[OF Gpos] by blast
  have up: "[0..<G] = [0..<k] @ [k]" using k by simp
  show ?thesis
    unfolding launch_def up
    using launch_blocks_last[OF Gpos TBlockSize_pos n r]
          launch_blocks_last[OF Gpos TBlockSize_pos n r[folded cong]]
    by simp
qed

lemma level1_no_visits:
  "\<forall>a \<in> set lanes. n \<le> linearizedIndex a \<Longrightarrow> level1 func source n lanes sd = Some sd"
  by (induction lanes) (auto simp: lane_fold_at_end at_end_def begin_iter_def)

lemma cond_false: "n \<le> bI * TBlockSize + 1 \<Longrightarrow> \<not> cond bI tI u n"
  by (auto simp: cond_def)

lemma tree_round_no_cond:
  "\<forall>a \<in> set lanes. n \<le> blockIndex a * TBlockSize + 1 \<Longrightarrow>
   sdata (tree_round n lanes u st) = sdata st"
proof -
  assume a: "\<forall>a \<in> set lanes. n \<le> blockIndex a * TBlockSize + 1"
  have "foldl (\<lambda>sd a. tree_step (blockIndex a) (threadIndex a) u n sd) sd lanes = sd" for sd
    using a by (induction lanes) (auto simp: tree_step_def cond_false)
  then show ?thesis by (simp add: tree_round_def syncBlockThreads_def)
qed

lemma tree_fold_no_cond:
  assumes "\<forall>a \<in> set lanes. n \<le> blockIndex a * TBlockSize + 1"
  shows "sdata (tree_fold n lanes st) = sdata st"
  by (simp add: tree_fold_unrolled tree_round_no_cond[OF assms])

lemma block_result_single:
  assumes "\<forall>a \<in> set lanes. n \<le> blockIndex a * TBlockSize + 1"
    and "level1 func source n lanes allocVar = Some sd"
  shows "block_result func source n lanes = Some (sd ! 0)"
  using assms by (simp add: block_result_def tree_fold_no_cond syncBlockThreads_def)

lemma block_lanes_Cons:
  "0 < B \<Longrightarrow> block_lanes G B b =
     \<lparr>gridBlockExtent = G, blockThreadExtent = B, gridBlockIdx = b, blockThreadIdx = 0\<rparr>
     # map (\<lambda>t. \<lparr>gridBlockExtent = G, blockThreadExtent = B, gridBlockIdx = b, blockThreadIdx = t\<rparr>) [1..<B]"
  by (simp add: block_lanes_def upt_conv_Cons)

text \<open>The last block of the launch for 257 elements, all of value 1.\<close>

lemma level1_257_block1:
  "level1 accumulate (\<lambda>i. 1::nat) 257 (block_lanes 2 TBlockSize 1) allocVar = Some (allocVar[0 := Val 1])"
proof -
  have rest: "level1 accumulate (\<lambda>i. 1::nat) 257
      (map (\<lambda>t. \<lparr>gridBlockExtent = 2, blockThreadExtent = TBlockSize, gridBlockIdx = 1, blockThreadIdx = t\<rparr>) [1..<TBlockSize]) sd = Some sd" for sd
    by (rule level1_no_visits) (auto simp: linearizedIndex_def u32_def TBlockSize_def)
  let ?a0 = "\<lparr>gridBlockExtent = 2, blockThreadExtent = TBlockSize, gridBlockIdx = 1, blockThreadIdx = 0\<rparr>"
  have it: "begin_iter ?a0 257 = \<lparr>pos = 256, stride = 512, bound = 257\<rparr>"
    by (simp add: begin_iter_def linearizedIndex_def gridDimension_def u32_def TBlockSize_def)
  have bI: "blockIndex ?a0 = 1" by (simp add: blockIndex_def u32_def)
  have first: "lane_fold accumulate 1 (\<lambda>i. 1::nat) \<lparr>pos = 256, stride = 512, bound = 257\<rparr> allocVar
     = Some (allocVar[0 := Val 1])"
    by (subst lane_fold.simps, subst lane_fold.simps)
       (simp add: at_end_def advance_def accumulate_def allocVar_def TBlockSize_def)
  show ?thesis
    unfolding block_lanes_Cons[OF TBlockSize_pos] level1.simps it bI first
    by (simp only: option.case rest)
qed

lemma block_result_257_block1:
  "block_result accumulate (\<lambda>i. 1::nat) 257 (block_lanes 2 TBlockSize 1) = Some (Val 1)"
proof -
  have "\<forall>a \<in> set (block_lanes 2 TBlockSize 1). 257 \<le> blockIndex a * TBlockSize + 1"
    by (auto simp: block_lanes_def blockIndex_def u32_def TBlockSize_def)
  from block_result_single[OF this level1_257_block1] show ?thesis
    by (simp add: allocVar_def TBlockSize_def)
qed

lemma Executor_run_257_ones:
  "Executor_run (+) 0 accumulate 0 (\<lambda>i. 1::nat) 257 = Some \<lparr>result = 1, launches = 1, combines = 1\<rparr>"
proof -
  have G: "(257 + TBlockSize - 1) div TBlockSize = 2" by (simp add: TBlockSize_def)
  have up: "[0..<2] = [0] @ [1::nat]" by (simp add: upt_conv_Cons)
  have "launch accumulate 0 (\<lambda>i. 1::nat) 257 2 TBlockSize (\<lambda>j. Uninit) = Some ((\<lambda>j. Uninit)(0 := Val 1))"
    unfolding launch_def up
    by (rule launch_blocks_last[OF _ TBlockSize_pos _ block_result_257_block1]) (simp_all add: u32_def)
  then show ?thesis
    unfolding Executor_run_def G Let_def
    by (simp add: contributions_def upt_conv_Cons)
qed

lemma foldl_plus_sum_list: "foldl (+) (a::nat) xs = a + sum_list xs"
  by (induction xs arbitrary: a) auto

lemma block_lanes_thread0_iff: "(\<exists>a \<in> set (block_lanes G B b). threadIndex a = 0) \<longleftrightarrow> 0 < B"
proof
  assume "\<exists>a \<in> set (block_lanes G B b). threadIndex a = 0"
  then have "block_lanes G B b \<noteq> []" by auto
  then show "0 < B" by (simp add: block_lanes_def)
next
  assume "0 < B"
  then show "\<exists>a \<in> set (block_lanes G B b). threadIndex a = 0" by (rule block_lanes_thread0)
qed

lemma ceil_grid_block: "(b < (n + TBlockSize - 1) div TBlockSize) = (b * TBlockSize < n)"
proof -
  have "(Suc b \<le> (n + TBlockSize - 1) div TBlockSize) = (Suc b * TBlockSize \<le> n + TBlockSize - 1)"
    using TBlockSize_pos by (simp only: less_eq_div_iff_mult_less_eq)
  also have "\<dots> = (b * TBlockSize < n)" using TBlockSize_pos by auto
  finally show ?thesis by (simp add: Suc_le_eq)
qed

lemma launch_blocks_noop:
  assumes "0 < u32 G" and "n = 0 \<or> B = 0"
  shows "launch_blocks func bi source n G B bs d = Some d"
proof (induction bs)
  case Nil
  then show ?case by simp
next
  case (Cons b bs)
  obtain r where "block_result func source n (block_lanes G B b) = Some r"
    using block_result_returns[OF assms(1)] by blast
  then show ?case using Cons assms(2)
    by (auto simp: ReduceKernel_block_result block_lanes_def)
qed

lemma length_launch_lanes: "length (launch_lanes G B) = G * B"
  by (simp add: launch_lanes_def block_lanes_def length_concat comp_def sum_list_triv)

lemma accumulate_other_slot: "i \<noteq> idx \<Longrightarrow> accumulate bI idx sd x ! i = sd ! i"
  by (simp add: accumulate_def)

lemma foldl_accumulate_other_slot:
  "i \<noteq> 0 \<Longrightarrow> foldl (\<lambda>s j. accumulate bI 0 s (source j)) sd xs ! i = sd ! i"
  by (induction xs arbitrary: sd) (auto simp: accumulate_other_slot)

lemma level1_accumulate_other_slot:
  assumes "\<forall>a \<in> set lanes. 0 < gridDimension a" and "i \<noteq> 0"
    and "level1 accumulate source n lanes sd = Some sd'"
  shows "sd' ! i = sd ! i"
  using assms
proof (induction lanes arbitrary: sd)
  case Nil
  then show ?case by simp
next
  case (Cons a lanes)
  then show ?case
    by (auto simp: lane_fold_visits stride_begin_iter foldl_accumulate_other_slot)
qed

lemma lane_fold_second_lane:
  "lane_fold accumulate 0 (\<lambda>i. 10 + i)
     (begin_iter \<lparr>gridBlockExtent = 1, blockThreadExtent = TBlockSize, gridBlockIdx = 0, blockThreadIdx = 1\<rparr> 2)
     allocVar = Some (allocVar[0 := Val (11::nat)])"
proof -
  have it: "begin_iter \<lparr>gridBlockExtent = 1, blockThreadExtent = TBlockSize, gridBlockIdx = 0, blockThreadIdx = 1\<rparr> 2
     = \<lparr>pos = 1, stride = 256, bound = 2\<rparr>"
    by (simp add: begin_iter_def linearizedIndex_def gridDimension_def u32_def TBlockSize_def)
  show ?thesis
    unfolding it
    by (subst lane_fold.simps, subst lane_fold.simps)
       (simp add: at_end_def advance_def accumulate_def allocVar_def TBlockSize_def)
qed

text \<open>
  Within a round the order of the lanes does not matter: a lane writes its own slot,
  below \<open>currentBlockSizeUp\<close>, and reads its partner's, at or above it.
\<close>

lemma tree_step_length: "length (tree_step bI tI u n sd) = length sd"
  by (simp add: tree_step_def)

lemma tree_step_nth:
  "tI < length sd \<Longrightarrow>
   tree_step bI tI u n sd ! i =
     (if i = tI \<and> cond bI tI u n then cell_plus (sd ! tI) (sd ! (tI + u)) else sd ! i)"
  by (simp add: tree_step_def nth_list_update)

lemma tree_round_any_order:
  assumes "distinct (map threadIndex lanes)"
    and "\<forall>a \<in> set lanes. blockIndex a = bI"
    and "length sd = TBlockSize"
  shows "foldl (\<lambda>sd a. tree_step (blockIndex a) (threadIndex a) u n sd) sd lanes ! i =
     (if i \<in> threadIndex ` set lanes \<and> cond bI i u n
      then cell_plus (sd ! i) (sd ! (i + u)) else sd ! i)"
  using assms
proof (induction lanes arbitrary: sd)
  case Nil
  then show ?case by simp
next
  case (Cons a lanes)
  let ?t = "threadIndex a"
  let ?sd = "tree_step bI ?t u n sd"
  have len: "length ?sd = TBlockSize" using Cons.prems by (simp add: tree_step_length)
  have notin: "?t \<notin> threadIndex ` set lanes" using Cons.prems by auto
  have IH: "foldl (\<lambda>sd a. tree_step (blockIndex a) (threadIndex a) u n sd) ?sd lanes ! i =
     (if i \<in> threadIndex ` set lanes \<and> cond bI i u n
      then cell_plus (?sd ! i) (?sd ! (i + u)) else ?sd ! i)"
    using Cons.prems len by (intro Cons.IH) auto
  have other: "?sd ! j = sd ! j" if "j \<noteq> ?t \<or> \<not> cond bI ?t u n" for j
    using that by (auto simp: tree_step_def)
  have own: "?sd ! ?t = (if cond bI ?t u n then cell_plus (sd ! ?t) (sd ! (?t + u)) else sd ! ?t)"
  proof (cases "cond bI ?t u n")
    case True
    then have "?t < length sd" using Cons.prems by (simp add: cond_def)
    then show ?thesis by (simp add: tree_step_nth)
  next
    case False
    then show ?thesis by (simp add: tree_step_def)
  qed
  have partner: "?sd ! (i + u) = sd ! (i + u)" if "cond bI i u n"
  proof (rule other)
    show "i + u \<noteq> ?t \<or> \<not> cond bI ?t u n"
      using that by (auto simp: cond_def)
  qed
  have bI: "blockIndex a = bI" using Cons.prems by simp
  show ?case
  proof (cases "i = ?t")
    case True
    then show ?thesis using IH notin own bI by simp
  next
    case False
    then have "?sd ! i = sd ! i" by (intro other) simp
    then show ?thesis using IH False partner bI by auto
  qed
qed

lemma lane_visits_member:
  assumes "i \<in> set (lane_visits it)"
  shows "pos it \<le> i \<and> i < bound it \<and> stride it dvd (i - pos it)"
proof -
  have s: "0 < stride it"
  proof (rule ccontr)
    assume "\<not> 0 < stride it"
    then have "lane_visits it = []" by (subst lane_visits.simps) simp
    with assms show False by simp
  qed
  have "count_list (lane_visits it) i \<noteq> 0" using assms by (simp add: count_list_0_iff)
  then show ?thesis using count_lane_visits[OF s, of i] by (auto split: if_splits)
qed

lemma level1_source_cong_visits:
  assumes "\<forall>a \<in> set lanes. 0 < gridDimension a"
    and "\<forall>a \<in> set lanes. \<forall>i \<in> set (lane_visits (begin_iter a n)). s1 i = s2 i"
  shows "level1 func s1 n lanes sd = level1 func s2 n lanes sd"
  using assms
proof (induction lanes arbitrary: sd)
  case Nil
  then show ?case by simp
next
  case (Cons a lanes)
  have eq: "foldl (\<lambda>s i. func bI (0::nat) s (s1 i)) sd0 xs = foldl (\<lambda>s i. func bI 0 s (s2 i)) sd0 xs"
    if "\<forall>i \<in> set xs. s1 i = s2 i" for xs bI sd0
    using that by (induction xs arbitrary: sd0) auto
  have "lane_fold func (blockIndex a) s1 (begin_iter a n) sd
      = lane_fold func (blockIndex a) s2 (begin_iter a n) sd"
    using Cons.prems by (simp add: lane_fold_visits stride_begin_iter eq)
  then show ?case using Cons by (simp split: option.splits)
qed

lemma block_visits_own_residues:
  assumes fits: "G * TBlockSize \<le> 2 ^ 32" and b: "b < G"
    and a: "a \<in> set (block_lanes G TBlockSize b)"
    and i: "i \<in> set (lane_visits (begin_iter a n))"
  shows "(i mod (G * TBlockSize)) div TBlockSize = b"
proof -
  let ?S = "G * TBlockSize"
  have bB: "b * TBlockSize + TBlockSize \<le> ?S"
  proof -
    have "Suc b * TBlockSize \<le> G * TBlockSize" using b by (intro mult_le_mono1) simp
    then show ?thesis by (simp add: add.commute)
  qed
  then have le: "b * TBlockSize + TBlockSize \<le> 2 ^ 32" using fits by simp
  have "linearizedIndex a \<in> set (map linearizedIndex (block_lanes G TBlockSize b))" using a by simp
  then have p: "b * TBlockSize \<le> linearizedIndex a \<and> linearizedIndex a < b * TBlockSize + TBlockSize"
    unfolding linearizedIndex_block_lanes[OF le] by simp
  then have pS: "linearizedIndex a < ?S" using bB by simp
  have G32: "u32 G = G" using fits by (intro u32_id) (simp add: TBlockSize_def)
  have gd: "gridDimension a = G"
    using gridDimension_block_lanes[OF a] G32 by simp
  from lane_visits_member[OF i]
  have "linearizedIndex a \<le> i \<and> ?S dvd (i - linearizedIndex a)"
    by (simp add: begin_iter_def gd)
  then have "i mod ?S = linearizedIndex a" using dvd_mod_pos[OF pS, of i] by simp
  moreover have "linearizedIndex a div TBlockSize = b"
  proof (rule div_nat_eqI)
    show "TBlockSize * b \<le> linearizedIndex a" using p by (simp add: mult.commute)
    show "linearizedIndex a < TBlockSize * Suc b" using p by (simp add: mult.commute)
  qed
  ultimately show ?thesis by simp
qed

text \<open>
  In whatever order the blocks run, only the block that runs last reaches the
  destination: the first element of any other block has no influence on the outcome of
  the launch.
\<close>

lemma launch_any_order_ignores_other_block:
  assumes fits: "G * TBlockSize \<le> 2 ^ 32" and b: "b < G" and b': "b' < G" and ne: "b' \<noteq> b"
    and n: "0 < n"
  shows "launch_blocks func bi (source(b' * TBlockSize := x)) n G TBlockSize (bs @ [b]) d
       = launch_blocks func bi source n G TBlockSize (bs @ [b]) d"
proof -
  have G32: "u32 G = G" using fits by (intro u32_id) (simp add: TBlockSize_def)
  then have Gpos: "0 < u32 G" using b by simp
  have res: "(b' * TBlockSize mod (G * TBlockSize)) div TBlockSize = b'"
  proof -
    have "b' * TBlockSize < G * TBlockSize" using b' TBlockSize_pos by simp
    then show ?thesis using TBlockSize_pos by simp
  qed
  have "level1 func (source(b' * TBlockSize := x)) n (block_lanes G TBlockSize b) allocVar
      = level1 func source n (block_lanes G TBlockSize b) allocVar"
  proof (rule level1_source_cong_visits, goal_cases)
    case 1
    then show ?case using Gpos by (simp add: gridDimension_block_lanes)
  next
    case 2
    show ?case
    proof (intro ballI)
      fix a i
      assume "a \<in> set (block_lanes G TBlockSize b)" and "i \<in> set (lane_visits (begin_iter a n))"
      from block_visits_own_residues[OF fits b this] res ne
      have "i \<noteq> b' * TBlockSize" by auto
      then show "(source(b' * TBlockSize := x)) i = source i" by simp
    qed
  qed
  then have cong: "block_result func (source(b' * TBlockSize := x)) n (block_lanes G TBlockSize b)
            = block_result func source n (block_lanes G TBlockSize b)"
    by (simp add: block_result_def)
  obtain r where r: "block_result func source n (block_lanes G TBlockSize b) = Some r"
    using block_result_returns[OF Gpos] by blast
  show ?thesis
    using launch_blocks_last[OF Gpos TBlockSize_pos n r]
          launch_blocks_last[OF Gpos TBlockSize_pos n r[folded cong]]
    by simp
qed

text \<open>
  The same for the Executor of the specification: with more than 256 elements its grid
  has at least two blocks, and the result of the reduction does not depend on element 0.
\<close>

lemma Executor_run_ignores_first_element:
  assumes "TBlockSize < n" and "n + TBlockSize \<le> 2 ^ 32"
  shows "Executor_run f e func bi (source(0 := x)) n = Executor_run f e func bi source n"
proof -
  obtain k where k: "(n + TBlockSize - 1) div TBlockSize = Suc (Suc k)"
    using grid_ge2[OF assms(1)] by blast
  have "launch func bi (source(0 := x)) n ((n + TBlockSize - 1) div TBlockSize) TBlockSize (\<lambda>j. Uninit)
      = launch func bi source n ((n + TBlockSize - 1) div TBlockSize) TBlockSize (\<lambda>j. Uninit)"
    using assms k by (intro launch_ignores_first_element grid_fits) auto
  then show ?thesis by (simp add: Executor_run_def)
qed

lemma foldl_plus_257: "foldl (+) 0 (map ((\<lambda>i. 1::nat)(0 := 5)) [0..<257]) = 261"
proof -
  have "foldl (+) 0 (map ((\<lambda>i. 1::nat)(0 := 5)) [0..<257])
      = sum_list (map ((\<lambda>i. 1::nat)(0 := 5)) [0..<257])"
    by (simp only: foldl_plus_sum_list add_0)
  also have "\<dots> = 5 + sum_list (map ((\<lambda>i. 1::nat)(0 := 5)) [1..<257])"
    by (subst upt_conv_Cons) simp_all
  also have "\<dots> = 5 + sum_list (map (\<lambda>i. 1::nat) [1..<257])"
    by (intro arg_cong[where f = "\<lambda>xs. 5 + sum_list xs"] map_cong) auto
  also have "\<dots> = 261" by (simp add: sum_list_triv)
  finally show ?thesis .
qed

lemma launch_257_ones:
  "launch accumulate 0 (\<lambda>i. 1::nat) 257 2 TBlockSize (\<lambda>j. Uninit) = Some ((\<lambda>j. Uninit)(0 := Val 1))"
proof -
  have up: "[0..<2] = [0] @ [1::nat]" by (simp add: upt_conv_Cons)
  show ?thesis
    unfolding launch_def up
    by (rule launch_blocks_last[OF _ TBlockSize_pos _ block_result_257_block1]) (simp_all add: u32_def)
qed

text \<open>For no elements the kernel visits nothing and stores nothing.\<close>

lemma ReduceKernel_nothing: "ReduceKernel func bi source 0 lanes d = Some d"
  by (simp add: ReduceKernel_def level1_no_visits foldl_store_result)

lemma launch_blocks_nothing: "launch_blocks func bi source 0 G B bs d = Some d"
  by (induction bs) (simp_all add: ReduceKernel_nothing)

text \<open>
  A round of the tree fold for the lanes of a block of \<open>TBlockSize\<close> threads, slot by
  slot; rounds whose \<open>currentBlockSizeUp\<close> is not below \<open>n\<close> change nothing.
\<close>

lemma tree_round_length: "length (sdata (tree_round n lanes u st)) = length (sdata st)"
proof -
  have "length (foldl (\<lambda>sd a. tree_step (blockIndex a) (threadIndex a) u n sd) sd lanes) = length sd"
    for sd :: "'a cheapArray"
    by (induction lanes arbitrary: sd) (auto simp: tree_step_length)
  then show ?thesis by (simp add: tree_round_def syncBlockThreads_def)
qed

lemma cond_false_small: "n \<le> u \<Longrightarrow> \<not> cond bI tI u n"
  by (auto simp: cond_def)

lemma tree_round_idle: "n \<le> u \<Longrightarrow> sdata (tree_round n lanes u st) = sdata st"
proof -
  assume a: "n \<le> u"
  have "foldl (\<lambda>sd a. tree_step (blockIndex a) (threadIndex a) u n sd) sd lanes = sd"
    for sd :: "'a cheapArray"
    by (induction lanes) (auto simp: tree_step_def cond_false_small[OF a])
  then show ?thesis by (simp add: tree_round_def syncBlockThreads_def)
qed

lemma threadIndex_block_lanes:
  "B \<le> 2 ^ 32 \<Longrightarrow> map threadIndex (block_lanes G B b) = [0..<B]"
proof -
  assume B: "B \<le> 2 ^ 32"
  have "map threadIndex (block_lanes G B b) = map (\<lambda>t. u32 t) [0..<B]"
    by (simp add: block_lanes_def threadIndex_def comp_def)
  also have "\<dots> = map (\<lambda>t. t) [0..<B]"
    using B by (intro map_cong refl u32_id) auto
  finally show ?thesis by simp
qed

lemma blockIndex_block_lanes: "a \<in> set (block_lanes G B b) \<Longrightarrow> blockIndex a = u32 b"
  by (auto simp: block_lanes_def blockIndex_def)

lemma tree_round_block:
  assumes len: "length (sdata st) = TBlockSize" and b: "b < 2 ^ 32"
  shows "sdata (tree_round n (block_lanes G TBlockSize b) u st) ! i =
     (if cond b i u n then cell_plus (sdata st ! i) (sdata st ! (i + u)) else sdata st ! i)"
proof -
  let ?lanes = "block_lanes G TBlockSize b"
  have T: "TBlockSize \<le> 2 ^ 32" by (simp add: TBlockSize_def)
  have m: "map threadIndex ?lanes = [0..<TBlockSize]" using T by (rule threadIndex_block_lanes)
  then have d: "distinct (map threadIndex ?lanes)" by simp
  have img: "threadIndex ` set ?lanes = {0..<TBlockSize}"
    using m by (metis set_map set_upt)
  have bI: "\<forall>a \<in> set ?lanes. blockIndex a = b"
    using b by (simp add: blockIndex_block_lanes u32_id)
  have c: "cond b i u n \<Longrightarrow> i < TBlockSize" by (simp add: cond_def)
  have "foldl (\<lambda>sd a. tree_step (blockIndex a) (threadIndex a) u n sd) (sdata st) ?lanes ! i =
     (if i \<in> threadIndex ` set ?lanes \<and> cond b i u n
      then cell_plus (sdata st ! i) (sdata st ! (i + u)) else sdata st ! i)"
    using d bI len by (rule tree_round_any_order)
  then show ?thesis using c by (auto simp: tree_round_def syncBlockThreads_def img)
qed

lemma block_lanes_Cons2:
  "1 < B \<Longrightarrow> block_lanes G B b =
     \<lparr>gridBlockExtent = G, blockThreadExtent = B, gridBlockIdx = b, blockThreadIdx = 0\<rparr>
     # \<lparr>gridBlockExtent = G, blockThreadExtent = B, gridBlockIdx = b, blockThreadIdx = 1\<rparr>
     # map (\<lambda>t. \<lparr>gridBlockExtent = G, blockThreadExtent = B, gridBlockIdx = b, blockThreadIdx = t\<rparr>) [2..<B]"
  by (simp add: block_lanes_def upt_conv_Cons numeral_2_eq_2)

lemma level1_two_lanes:
  assumes f0: "lane_fold func 0 source \<lparr>pos = 0, stride = 256, bound = 2\<rparr> allocVar = Some sd0"
    and f1: "lane_fold func 0 source \<lparr>pos = 1, stride = 256, bound = 2\<rparr> sd0 = Some sd1"
  shows "level1 func source 2 (block_lanes 1 TBlockSize 0) allocVar = Some sd1"
proof -
  let ?a0 = "\<lparr>gridBlockExtent = 1, blockThreadExtent = TBlockSize, gridBlockIdx = 0, blockThreadIdx = 0\<rparr>"
  let ?a1 = "\<lparr>gridBlockExtent = 1, blockThreadExtent = TBlockSize, gridBlockIdx = 0, blockThreadIdx = 1\<rparr>"
  have rest: "level1 func source 2
      (map (\<lambda>t. \<lparr>gridBlockExtent = 1, blockThreadExtent = TBlockSize, gridBlockIdx = 0, blockThreadIdx = t\<rparr>) [2..<TBlockSize]) sd = Some sd" for sd
  proof (rule level1_no_visits, rule ballI)
    fix a
    assume "a \<in> set (map (\<lambda>t. \<lparr>gridBlockExtent = 1, blockThreadExtent = TBlockSize, gridBlockIdx = 0, blockThreadIdx = t\<rparr>) [2..<TBlockSize])"
    then obtain t where t: "2 \<le> t" "t < TBlockSize"
      and a: "a = \<lparr>gridBlockExtent = 1, blockThreadExtent = TBlockSize, gridBlockIdx = 0, blockThreadIdx = t\<rparr>"
      by auto
    have "t < 2 ^ 32" using t by (simp add: TBlockSize_def)
    then have "linearizedIndex a = t" using a by (simp add: linearizedIndex_def u32_id)
    then show "2 \<le> linearizedIndex a" using t by simp
  qed
  have it0: "begin_iter ?a0 2 = \<lparr>pos = 0, stride = 256, bound = 2\<rparr>"
    by (simp add: begin_iter_def linearizedIndex_def gridDimension_def u32_def TBlockSize_def)
  have it1: "begin_iter ?a1 2 = \<lparr>pos = 1, stride = 256, bound = 2\<rparr>"
    by (simp add: begin_iter_def linearizedIndex_def gridDimension_def u32_def TBlockSize_def)
  have b0: "blockIndex ?a0 = 0" by (simp add: blockIndex_def u32_def)
  have b1: "blockIndex ?a1 = 0" by (simp add: blockIndex_def u32_def)
  have B: "1 < TBlockSize" by (simp add: TBlockSize_def)
  show ?thesis
    unfolding block_lanes_Cons2[OF B] level1.simps it0 it1 b0 b1 f0 option.case f1
    by (simp only: option.case rest)
qed

lemma lane_fold_one_visit:
  assumes "p < n" and "n \<le> p + s"
  shows "lane_fold func bI source \<lparr>pos = p, stride = s, bound = n\<rparr> sd = Some (func bI 0 sd (source p))"
  using assms
  by (subst lane_fold.simps, subst lane_fold.simps) (simp add: at_end_def advance_def)

lemma level1_product_example:
  "level1 (combine_at (\<lambda>a b. a * b)) (\<lambda>i. (i, i + 2)) 2 (block_lanes 1 TBlockSize 0) allocVar
     = Some (allocVar[0 := Val (2::nat), 1 := Val 3])"
proof (rule level1_two_lanes)
  show "lane_fold (combine_at (\<lambda>a b. a * b)) 0 (\<lambda>i. (i, i + 2)) \<lparr>pos = 0, stride = 256, bound = 2\<rparr> allocVar
      = Some (allocVar[0 := Val (2::nat)])"
    by (simp add: lane_fold_one_visit combine_at_def allocVar_def TBlockSize_def numeral_2_eq_2)
  show "lane_fold (combine_at (\<lambda>a b. a * b)) 0 (\<lambda>i. (i, i + 2)) \<lparr>pos = 1, stride = 256, bound = 2\<rparr>
        (allocVar[0 := Val (2::nat)])
      = Some (allocVar[0 := Val (2::nat), 1 := Val 3])"
    by (simp add: lane_fold_one_visit combine_at_def allocVar_def TBlockSize_def numeral_3_eq_3)
qed

lemma block_result_small:
  assumes l1: "level1 func source 2 (block_lanes G TBlockSize b) allocVar = Some sd"
    and len: "length sd = TBlockSize" and b: "b < 2 ^ 32"
  shows "block_result func source 2 (block_lanes G TBlockSize b) =
     Some (if cond b 0 1 2 then cell_plus (sd ! 0) (sd ! 1) else sd ! 0)"
proof -
  let ?lanes = "block_lanes G TBlockSize b"
  let ?st = "syncBlockThreads \<lparr>sdata = sd, barriers = 0\<rparr>"
  define st7 where "st7 = foldl (\<lambda>s u. tree_round 2 ?lanes u s) ?st [128,64,32,16,8,4,2]"
  have s7: "sdata st7 = sd"
    unfolding st7_def by (simp add: tree_round_idle syncBlockThreads_def)
  have "tree_fold 2 ?lanes ?st = tree_round 2 ?lanes 1 st7"
    unfolding st7_def by (simp add: tree_fold_unrolled)
  moreover have "sdata (tree_round 2 ?lanes 1 st7) ! 0 =
      (if cond b 0 1 2 then cell_plus (sdata st7 ! 0) (sdata st7 ! (0 + 1)) else sdata st7 ! 0)"
    using len b by (intro tree_round_block) (simp_all add: s7)
  ultimately show ?thesis using l1 by (simp add: block_result_def s7)
qed

lemma ReduceKernel_product_example:
  "ReduceKernel (combine_at (\<lambda>a b. a * b)) 0 (\<lambda>i. (i, i + 2)) 2 (block_lanes 1 TBlockSize 0) (\<lambda>j. Uninit)
     = Some ((\<lambda>j. Uninit)(0 := Val (5::nat)))"
proof -
  have "block_result (combine_at (\<lambda>a b. a * b)) (\<lambda>i. (i, i + 2)) 2 (block_lanes 1 TBlockSize 0)
      = Some (Val (5::nat))"
    using block_result_small[OF level1_product_example, of ]
    by (simp add: cond_def allocVar_def TBlockSize_def)
  then show ?thesis
    by (simp add: ReduceKernel_block_result block_lanes_thread0_iff TBlockSize_def)
qed

lemma level1_sum_example:
  "level1 accumulate (\<lambda>i. 10 + i) 2 (block_lanes 1 TBlockSize 0) allocVar
     = Some (allocVar[0 := Val (21::nat)])"
proof (rule level1_two_lanes)
  show "lane_fold accumulate 0 (\<lambda>i. 10 + i) \<lparr>pos = 0, stride = 256, bound = 2\<rparr> allocVar
      = Some (allocVar[0 := Val (10::nat)])"
    by (simp add: lane_fold_one_visit accumulate_def allocVar_def TBlockSize_def)
  show "lane_fold accumulate 0 (\<lambda>i. 10 + i) \<lparr>pos = 1, stride = 256, bound = 2\<rparr>
        (allocVar[0 := Val (10::nat)])
      = Some (allocVar[0 := Val (21::nat)])"
    by (simp add: lane_fold_one_visit accumulate_def allocVar_def TBlockSize_def)
qed

text \<open>
  What a lane does before the first barrier, for every \<open>func\<close>: one call
  \<open>func(blockIndex, 0, sdata, element)\<close> on the block's shared array for every element
  it visits, in visiting order, and nothing else. A lane visits nothing exactly when its
  linearized index is not below \<open>n\<close>, and then it leaves the shared array as it found
  it.
\<close>

lemma lane_phase_calls_func_on_shared_array:
  assumes "0 < gridDimension a"
  shows "lane_fold func (blockIndex a) source (begin_iter a n) sd =
      Some (foldl (\<lambda>s i. func (blockIndex a) 0 s (source i)) sd (lane_visits (begin_iter a n)))
    \<and> (lane_visits (begin_iter a n) = [] \<longleftrightarrow> n \<le> linearizedIndex a)
    \<and> (n \<le> linearizedIndex a \<longrightarrow> lane_fold func (blockIndex a) source (begin_iter a n) sd = Some sd)"
proof (intro conjI impI)
  show "lane_fold func (blockIndex a) source (begin_iter a n) sd =
      Some (foldl (\<lambda>s i. func (blockIndex a) 0 s (source i)) sd (lane_visits (begin_iter a n)))"
    using assms by (intro lane_fold_visits stride_begin_iter)
  show "lane_visits (begin_iter a n) = [] \<longleftrightarrow> n \<le> linearizedIndex a"
    using stride_begin_iter[OF assms, of n]
    by (subst lane_visits.simps) (auto simp: at_end_def begin_iter_def)
  assume "n \<le> linearizedIndex a"
  then show "lane_fold func (blockIndex a) source (begin_iter a n) sd = Some sd"
    by (intro lane_fold_at_end) (simp add: at_end_def begin_iter_def)
qed

section \<open>The claims\<close>

subsection \<open>C1: reduce equals the sequential fold\<close>

text \<open>
  Claim C1 does not hold of the kernel. Every block stores to the one slot
  \<open>destination[block_index]\<close>, so after a launch of two or more blocks of 256 lanes
  the destination holds the value of the block that ran last and nothing of the
  others. With the blocks run in increasing order, the outcome of the launch is the
  same whatever element 0 is, for every \<open>func\<close>, \<open>block_index\<close> and problem size;
  no host-side combination of the destination can then be the fold of all elements.
\<close>

theorem launch_keeps_last_block_only:
  assumes "2 \<le> G" and "G * TBlockSize \<le> 2 ^ 32" and "0 < n"
  shows "\<exists>r. launch func bi source n G TBlockSize d = Some (d(bi := r))
           \<and> launch func bi (source(0 := x)) n G TBlockSize d = Some (d(bi := r))"
proof -
  have "0 < G" using assms(1) by simp
  then have "u32 G = G" using assms(2) by (intro u32_id) (simp add: TBlockSize_def)
  with \<open>0 < G\<close> have "0 < u32 G" by simp
  then obtain r where "launch func bi source n G TBlockSize d =
      Some (if 0 < n \<and> 0 < TBlockSize then d(bi := r) else d)"
  proof -
    from \<open>0 < G\<close> have up: "[0..<G] = [0..<G - 1] @ [G - 1]" by (cases G) auto
    obtain r where r: "block_result func source n (block_lanes G TBlockSize (G - 1)) = Some r"
      using block_result_returns[OF \<open>0 < u32 G\<close>] by blast
    have "launch_blocks func bi source n G TBlockSize ([0..<G - 1] @ [G - 1]) d = Some (d(bi := r))"
      by (rule launch_blocks_last[OF \<open>0 < u32 G\<close> TBlockSize_pos assms(3) r])
    then have "launch func bi source n G TBlockSize d =
        Some (if 0 < n \<and> 0 < TBlockSize then d(bi := r) else d)"
      using up assms(3) TBlockSize_pos by (simp add: launch_def)
    then show ?thesis by (rule that)
  qed
  then have "launch func bi source n G TBlockSize d = Some (d(bi := r))"
    using assms(3) TBlockSize_pos by simp
  moreover have "launch func bi (source(0 := x)) n G TBlockSize d
      = launch func bi source n G TBlockSize d"
    using assms by (rule launch_ignores_first_element)
  ultimately show ?thesis by auto
qed

text \<open>
  The theorem at 257 elements and the grid of two blocks: the first element 5, the
  others 1. The elements add up to 261; the only value the launch leaves in the
  destination is 1, the value of block 1.
\<close>

theorem launch_keeps_last_block_only_witness:
  "(2::nat) \<le> 2 \<and> 2 * TBlockSize \<le> 2 ^ 32 \<and> (0::nat) < 257
   \<and> launch accumulate 0 ((\<lambda>i. 1::nat)(0 := 5)) 257 2 TBlockSize (\<lambda>j. Uninit)
       = Some ((\<lambda>j. Uninit)(0 := Val 1))
   \<and> foldl (+) 0 (map ((\<lambda>i. 1::nat)(0 := 5)) [0..<257]) = 261"
proof -
  have h1: "(2::nat) \<le> 2" by simp
  have h2: "2 * TBlockSize \<le> 2 ^ 32" by (simp add: TBlockSize_def)
  have h3: "(0::nat) < 257" by simp
  obtain r where
    "launch accumulate 0 (\<lambda>i. 1::nat) 257 2 TBlockSize (\<lambda>j. Uninit) = Some ((\<lambda>j. Uninit)(0 := r))"
    and r: "launch accumulate 0 ((\<lambda>i. 1::nat)(0 := 5)) 257 2 TBlockSize (\<lambda>j. Uninit)
        = Some ((\<lambda>j. Uninit)(0 := r))"
    using launch_keeps_last_block_only
      [OF h1 h2 h3, of accumulate 0 "\<lambda>i. 1::nat" "\<lambda>j. Uninit" 5]
    by blast
  then have "launch accumulate 0 ((\<lambda>i. 1::nat)(0 := 5)) 257 2 TBlockSize (\<lambda>j. Uninit)
      = Some ((\<lambda>j. Uninit)(0 := Val 1))"
    using launch_257_ones by simp
  then show ?thesis using h2 foldl_plus_257 by simp
qed

subsection \<open>C2: every index is folded by exactly one lane\<close>

text \<open>
  Claim C2, as the code has it. The stride of every lane is \<open>gridDimension * TBlockSize\<close>,
  whatever the block's thread extent is. When the launch has at least one block, its
  blocks have \<open>TBlockSize\<close> threads each and the lane indices fit 32 bits, every index
  below \<open>n\<close> is dereferenced exactly once by all lanes of the launch together: by one
  lane, and once by that lane.
\<close>

theorem ReduceKernel_visits_each_index_once:
  assumes G: "0 < G" and r: "G * TBlockSize \<le> 2 ^ 32" and i: "i < n"
  shows "visit_count G TBlockSize n i = 1"
proof -
  let ?S = "G * TBlockSize"
  have S: "0 < ?S" using G by (simp add: TBlockSize_def)
  have G32: "u32 G = G" using r by (intro u32_id) (simp add: TBlockSize_def)
  have lin: "map linearizedIndex (launch_lanes G TBlockSize) = [0..<?S]"
    using r by (rule linearizedIndex_launch_lanes)
  have each: "count_list (lane_visits (begin_iter a n)) i = (if linearizedIndex a = i mod ?S then 1 else 0)"
    if a: "a \<in> set (launch_lanes G TBlockSize)" for a
  proof -
    have "linearizedIndex a \<in> set (map linearizedIndex (launch_lanes G TBlockSize))"
      using a by simp
    then have p: "linearizedIndex a < ?S" unfolding lin by simp
    have st: "stride (begin_iter a n) = ?S"
      using gridDimension_launch_lanes[OF a] G32 by (simp add: begin_iter_def)
    have "count_list (lane_visits (begin_iter a n)) i =
       (if linearizedIndex a \<le> i \<and> i < n \<and> ?S dvd (i - linearizedIndex a) then 1 else 0)"
      using count_lane_visits[of "begin_iter a n" i] st S by (simp add: begin_iter_def)
    then show ?thesis using dvd_mod_pos[OF p, of i] i by auto
  qed
  have "visit_count G TBlockSize n i =
      sum_list (map (\<lambda>a. count_list (lane_visits (begin_iter a n)) i) (launch_lanes G TBlockSize))"
    by (simp add: visit_count_def count_list_concat_map)
  also have "\<dots> = sum_list (map (\<lambda>a. if linearizedIndex a = i mod ?S then 1 else 0) (launch_lanes G TBlockSize))"
    using each by (intro arg_cong[where f = sum_list] map_cong refl)
  also have "\<dots> = count_list (map linearizedIndex (launch_lanes G TBlockSize)) (i mod ?S)"
    by (rule sum_list_indicator)
  also have "\<dots> = 1" unfolding lin using S by (simp add: count_list_upt)
  finally show ?thesis .
qed

text \<open>The theorem at one block, three elements and index 2.\<close>

theorem ReduceKernel_visits_each_index_once_witness:
  "0 < (1::nat) \<and> 1 * TBlockSize \<le> 2 ^ 32 \<and> (2::nat) < 3 \<and> visit_count 1 TBlockSize 3 2 = 1"
  using ReduceKernel_visits_each_index_once [of 1 2 3] by (simp add: TBlockSize_def)

text \<open>
  For a block size other than \<open>TBlockSize\<close> the claim fails: one block of one thread
  (all a serial back end offers) and two elements. The only lane starts at index 0 and
  strides by 256, so index 1 is dereferenced by no lane.
\<close>

theorem ReduceKernel_block_of_one_thread_skips_index:
  "visit_count 1 1 2 1 = 0"
  by (simp add: visit_count_def launch_lanes_def block_lanes_def count_lane_visits
      begin_iter_def linearizedIndex_def gridDimension_def u32_def TBlockSize_def)

subsection \<open>C3: the tree fold\<close>

text \<open>
  Claim C3 does not hold of the kernel in one point: the rounds combine with the \<open>+\<close>
  of the result type, whatever the combining function of the reduction is. The rest is
  as claimed. The loop runs 8 rounds, which is \<open>ceil(log2 TBlockSize)\<close>
  (\<open>2^7 < TBlockSize \<le> 2^8\<close>); in every round \<open>currentBlockSizeUp\<close> is
  \<open>ceil(currentBlockSize / 2)\<close>; the tree fold is these rounds one after the other;
  after a round of the lanes of a block, slot \<open>i\<close> of the shared array holds
  \<open>sdata[i] + sdata[i + currentBlockSizeUp]\<close> of before the round exactly when the
  four guards hold for \<open>i\<close>, and what it held before otherwise; every round ends with
  one barrier. At the failing input (one block, the elements 2 and 3 in the slots of
  lanes 0 and 1, a reduction by multiplication) the block stores 5, not 6.
\<close>

theorem tree_fold_round_adds_under_guard:
  assumes "length (sdata st) = TBlockSize" and "b < 2 ^ 32"
  shows "round_list = [(256,128),(128,64),(64,32),(32,16),(16,8),(8,4),(4,2),(2,1)]
   \<and> length round_list = 8 \<and> 2 ^ 7 < TBlockSize \<and> TBlockSize \<le> 2 ^ 8
   \<and> list_all (\<lambda>(c, u). u = (c + 1) div 2) round_list
   \<and> tree_fold n lanes st = foldl (\<lambda>s (c, u). tree_round n lanes u s) st round_list
   \<and> sdata (tree_round n (block_lanes G TBlockSize b) u st) ! i =
       (if i < u \<and> i + u < TBlockSize \<and> b * TBlockSize + i + u < n \<and> i < n
        then cell_plus (sdata st ! i) (sdata st ! (i + u)) else sdata st ! i)
   \<and> cell_plus (Val x) (Val y) = Val (x + y)
   \<and> barriers (tree_round n lanes u st) = barriers st + 1
   \<and> barriers (tree_fold n lanes st) = barriers st + 8
   \<and> ReduceKernel (combine_at (\<lambda>a b. a * b)) 0 (\<lambda>i. (i, i + 2)) 2 (block_lanes 1 TBlockSize 0)
         (\<lambda>j. Uninit)
       = Some ((\<lambda>j. Uninit)(0 := Val (5::nat)))"
proof (intro conjI)
  show "round_list = [(256,128),(128,64),(64,32),(32,16),(16,8),(8,4),(4,2),(2,1)]"
    by (rule round_list_eq)
  show "length round_list = 8" by (simp add: round_list_eq)
  show "2 ^ 7 < TBlockSize" by (simp add: TBlockSize_def)
  show "TBlockSize \<le> 2 ^ 8" by (simp add: TBlockSize_def)
  show "list_all (\<lambda>(c, u). u = (c + 1) div 2) round_list" by (simp add: round_list_eq)
  show "tree_fold n lanes st = foldl (\<lambda>s (c, u). tree_round n lanes u s) st round_list"
    by (simp add: round_list_eq tree_fold_unrolled)
  show "sdata (tree_round n (block_lanes G TBlockSize b) u st) ! i =
       (if i < u \<and> i + u < TBlockSize \<and> b * TBlockSize + i + u < n \<and> i < n
        then cell_plus (sdata st ! i) (sdata st ! (i + u)) else sdata st ! i)"
    using tree_round_block[OF assms, of n G u i] by (simp add: cond_def)
  show "cell_plus (Val x) (Val y) = Val (x + y)" by simp
  show "barriers (tree_round n lanes u st) = barriers st + 1" by (rule barriers_tree_round)
  show "barriers (tree_fold n lanes st) = barriers st + 8"
    by (simp add: tree_fold_unrolled barriers_tree_round)
  show "ReduceKernel (combine_at (\<lambda>a b. a * b)) 0 (\<lambda>i. (i, i + 2)) 2 (block_lanes 1 TBlockSize 0)
         (\<lambda>j. Uninit)
       = Some ((\<lambda>j. Uninit)(0 := Val (5::nat)))"
    by (rule ReduceKernel_product_example)
qed

text \<open>
  The theorem at the last round (\<open>currentBlockSizeUp = 1\<close>) of block 0 with two
  elements: slot 0 becomes 2 + 3, slot 1 stays.
\<close>

theorem tree_fold_round_adds_under_guard_witness:
  "length (sdata \<lparr>sdata = allocVar[0 := Val (2::nat), 1 := Val 3], barriers = 1\<rparr>) = TBlockSize
   \<and> (0::nat) < 2 ^ 32
   \<and> sdata (tree_round 2 (block_lanes 1 TBlockSize 0) 1
               \<lparr>sdata = allocVar[0 := Val (2::nat), 1 := Val 3], barriers = 1\<rparr>) ! 0 = Val 5
   \<and> sdata (tree_round 2 (block_lanes 1 TBlockSize 0) 1
               \<lparr>sdata = allocVar[0 := Val (2::nat), 1 := Val 3], barriers = 1\<rparr>) ! 1 = Val 3"
proof -
  let ?st = "\<lparr>sdata = allocVar[0 := Val (2::nat), 1 := Val 3], barriers = 1\<rparr>"
  have h1: "length (sdata ?st) = TBlockSize" by (simp add: allocVar_def)
  have h2: "(0::nat) < 2 ^ 32" by simp
  have a: "sdata (tree_round 2 (block_lanes 1 TBlockSize 0) 1 ?st) ! 0 = Val 5"
    using tree_fold_round_adds_under_guard [OF h1 h2, of 2 "[]" 1 1 0 0 0]
    by (simp add: allocVar_def TBlockSize_def)
  have b: "sdata (tree_round 2 (block_lanes 1 TBlockSize 0) 1 ?st) ! 1 = Val 3"
    using tree_fold_round_adds_under_guard [OF h1 h2, of 2 "[]" 1 1 1 0 0]
    by (simp add: allocVar_def TBlockSize_def)
  show ?thesis using h1 h2 a b by simp
qed

text \<open>
  The step of the code against the step the specification words, for multiplication
  and the slots 2 and 3.
\<close>

lemma tree_step_adds_whatever_the_function:
  "tree_step 0 0 1 2 (allocVar[0 := Val (2::nat), 1 := Val 3])
   \<noteq> spec_tree_step (\<lambda>a b. a * b) TBlockSize 0 0 1 2 (allocVar[0 := Val 2, 1 := Val 3])"
proof
  assume "tree_step 0 0 1 2 (allocVar[0 := Val (2::nat), 1 := Val 3])
   = spec_tree_step (\<lambda>a b. a * b) TBlockSize 0 0 1 2 (allocVar[0 := Val 2, 1 := Val 3])"
  then have "tree_step 0 0 1 2 (allocVar[0 := Val (2::nat), 1 := Val 3]) ! 0
   = spec_tree_step (\<lambda>a b. a * b) TBlockSize 0 0 1 2 (allocVar[0 := Val 2, 1 := Val 3]) ! 0"
    by simp
  then show False
    by (simp add: tree_step_def spec_tree_step_def cond_def TBlockSize_def allocVar_def)
qed

subsection \<open>C4: no unassigned slot of the shared array is read\<close>

text \<open>
  Claim C4 does not hold of the kernel. One block of 256 lanes, one element: only lane 0
  visits an element, and \<open>accumulate\<close> assigns slot 0. After the barrier the
  \<open>printf\<close> loop of every lane reads all 256 slots, slot 1 among them, which nobody
  assigned. The tree fold reads unassigned slots as well: with 129 elements the guard
  of lane 0 holds in the first round (\<open>currentBlockSizeUp = 128\<close>), so the lane reads
  slots 0 and 128, and slot 128 is unassigned, because every lane hands the slot index
  0 to \<open>func\<close>.
\<close>

theorem debug_print_and_tree_fold_read_unassigned_slots:
  "level1 accumulate (\<lambda>i. 1::nat) 1 (block_lanes 1 TBlockSize 0) allocVar = Some (allocVar[0 := Val 1])
   \<and> 1 \<in> set print_reads \<and> (allocVar[0 := Val (1::nat)]) ! 1 = Uninit
   \<and> (\<exists>sd. level1 accumulate (\<lambda>i. 1::nat) 129 (block_lanes 1 TBlockSize 0) allocVar = Some sd
          \<and> sd ! 128 = Uninit)
   \<and> tree_reads 0 0 128 129 = [0, 128]"
proof (intro conjI)
  let ?a0 = "\<lparr>gridBlockExtent = 1, blockThreadExtent = TBlockSize, gridBlockIdx = 0, blockThreadIdx = 0\<rparr>"
  have rest: "level1 accumulate (\<lambda>i. 1::nat) 1
      (map (\<lambda>t. \<lparr>gridBlockExtent = 1, blockThreadExtent = TBlockSize, gridBlockIdx = 0, blockThreadIdx = t\<rparr>) [1..<TBlockSize]) sd = Some sd" for sd
    by (rule level1_no_visits) (auto simp: linearizedIndex_def u32_def TBlockSize_def)
  have it: "begin_iter ?a0 1 = \<lparr>pos = 0, stride = 256, bound = 1\<rparr>"
    by (simp add: begin_iter_def linearizedIndex_def gridDimension_def u32_def TBlockSize_def)
  have bI: "blockIndex ?a0 = 0" by (simp add: blockIndex_def u32_def)
  have first: "lane_fold accumulate 0 (\<lambda>i. 1::nat) \<lparr>pos = 0, stride = 256, bound = 1\<rparr> allocVar
     = Some (allocVar[0 := Val 1])"
    by (subst lane_fold.simps, subst lane_fold.simps)
       (simp add: at_end_def advance_def accumulate_def allocVar_def TBlockSize_def)
  show "level1 accumulate (\<lambda>i. 1::nat) 1 (block_lanes 1 TBlockSize 0) allocVar = Some (allocVar[0 := Val 1])"
    unfolding block_lanes_Cons[OF TBlockSize_pos] level1.simps it bI first
    by (simp only: option.case rest)
  show "1 \<in> set print_reads" by (simp add: print_reads_def TBlockSize_def)
  show "(allocVar[0 := Val (1::nat)]) ! 1 = Uninit" by (simp add: allocVar_def TBlockSize_def)
  show "tree_reads 0 0 128 129 = [0, 128]" by (simp add: tree_reads_def cond_def TBlockSize_def)
  have g: "\<forall>a \<in> set (block_lanes 1 TBlockSize 0). 0 < gridDimension a"
    by (simp add: gridDimension_block_lanes u32_def)
  obtain sd where sd: "level1 accumulate (\<lambda>i. 1::nat) 129 (block_lanes 1 TBlockSize 0) allocVar = Some sd"
    using level1_closed[OF g] by blast
  have "sd ! 128 = allocVar ! 128"
    using level1_accumulate_other_slot[OF g _ sd, of 128] by simp
  then have "sd ! 128 = Uninit" by (simp add: allocVar_def TBlockSize_def)
  with sd show "\<exists>sd. level1 accumulate (\<lambda>i. 1::nat) 129 (block_lanes 1 TBlockSize 0) allocVar = Some sd
          \<and> sd ! 128 = Uninit" by blast
qed

subsection \<open>C5: when the block result is stored\<close>

text \<open>
  Claim C5, as the code has it. The lanes of a block store slot 0 of the shared array to
  \<open>destination[block_index]\<close> exactly when the problem size is positive (and the block
  has a lane 0): the guard is \<open>threadIndex == 0 && threadIndex < n\<close>, which does not
  look at the block's own range of indices. For a block below \<open>ceil(n / 256)\<close>, the
  grid of the Executor, that range always begins below \<open>n\<close>.
\<close>

theorem block_result_stored_iff_input_nonempty:
  "ReduceKernel func bi source n (block_lanes G B b) d =
     map_option (\<lambda>r. if 0 < n \<and> 0 < B then d(bi := r) else d)
       (block_result func source n (block_lanes G B b))
   \<and> store_result bi tI n sd d = (if tI = 0 \<and> 0 < n then d(bi := sd ! 0) else d)
   \<and> (b < (n + TBlockSize - 1) div TBlockSize) = (b * TBlockSize < n)"
proof (intro conjI)
  show "ReduceKernel func bi source n (block_lanes G B b) d =
     map_option (\<lambda>r. if 0 < n \<and> 0 < B then d(bi := r) else d)
       (block_result func source n (block_lanes G B b))"
    by (simp add: ReduceKernel_block_result block_lanes_thread0_iff)
  show "store_result bi tI n sd d = (if tI = 0 \<and> 0 < n then d(bi := sd ! 0) else d)"
    by (simp add: store_result_def)
  show "(b < (n + TBlockSize - 1) div TBlockSize) = (b * TBlockSize < n)"
    by (rule ceil_grid_block)
qed

text \<open>
  A block whose indices all lie at or beyond \<open>n\<close> stores nevertheless: block 1 of a
  grid of two blocks with one element begins at index 256, visits nothing, and
  overwrites slot 0 of the destination (which held 5) with its unassigned slot.
\<close>

theorem block_without_elements_still_stores:
  "\<not> 1 * TBlockSize < 1
   \<and> map_option (\<lambda>d. d 0)
       (ReduceKernel accumulate 0 (\<lambda>i. 1::nat) 1 (block_lanes 2 TBlockSize 1) (\<lambda>j. Val 5))
     = Some Uninit"
proof -
  have l1: "level1 accumulate (\<lambda>i. 1::nat) 1 (block_lanes 2 TBlockSize 1) allocVar = Some allocVar"
    by (rule level1_no_visits) (auto simp: block_lanes_def linearizedIndex_def u32_def TBlockSize_def)
  have "\<forall>a \<in> set (block_lanes 2 TBlockSize 1). 1 \<le> blockIndex a * TBlockSize + 1"
    by simp
  from block_result_single[OF this l1]
  have "block_result accumulate (\<lambda>i. 1::nat) 1 (block_lanes 2 TBlockSize 1) = Some Uninit"
    by (simp add: allocVar_def TBlockSize_def)
  then show ?thesis
    by (simp add: ReduceKernel_block_result block_lanes_thread0_iff TBlockSize_def)
qed

subsection \<open>C6: the per-lane phase\<close>

text \<open>
  Claim C6 does not hold of the kernel. A lane has no accumulator of its own and the
  kernel never stores to \<open>sdata[threadIndex]\<close>: every lane hands \<open>func\<close> the whole
  shared array and the slot index 0. One block of 256 lanes, the two elements 10 and
  11, and \<open>accumulate\<close>: after the phase of the lane with thread index 1 alone its
  value 11 is in slot 0 and its own slot 1 is unassigned; after level 1 of the whole
  block slot 0 holds 21, the values of both lanes, and slot 1 is still unassigned.
\<close>

theorem lane_slot_left_unassigned:
  "map_option (\<lambda>sd. (sd ! 0, sd ! 1))
     (lane_fold accumulate 0 (\<lambda>i. 10 + i)
        (begin_iter \<lparr>gridBlockExtent = 1, blockThreadExtent = TBlockSize, gridBlockIdx = 0, blockThreadIdx = 1\<rparr> 2)
        allocVar)
   = Some (Val (11::nat), Uninit)
   \<and> map_option (\<lambda>sd. (sd ! 0, sd ! 1))
       (level1 accumulate (\<lambda>i. 10 + i) 2 (block_lanes 1 TBlockSize 0) allocVar)
     = Some (Val (21::nat), Uninit)"
  unfolding lane_fold_second_lane level1_sum_example by (simp add: allocVar_def TBlockSize_def)

subsection \<open>C7: a reduction of no elements\<close>

text \<open>
  Claim C7, on the Executor as the specification describes it: for \<open>n = 0\<close> the
  result is the identity, no kernel is launched and the combining function is not
  applied. The kernel of the source agrees with the short cut: a launch for no
  elements, whatever its grid, calls \<open>func\<close> never and leaves the destination as it
  was.
\<close>

theorem reduce_of_nothing_is_identity:
  "Executor_run f e func bi source 0 = Some \<lparr>result = e, launches = 0, combines = 0\<rparr>
   \<and> launch func bi source 0 G B d = Some d"
  by (simp add: Executor_run_def launch_def launch_blocks_nothing)

subsection \<open>C8: UniversalKernel\<close>

text \<open>
  Claim C8, as the code has it. One run of the kernel body calls the wrapped function
  exactly once, with the accelerator object, \<open>block_index\<close>, the destination and the
  source as they came in, whatever \<open>numElements\<close> is; nothing is iterated or reduced.
  The body runs in every lane of a launch, so a launch of \<open>G\<close> blocks of \<open>B\<close> threads
  calls the function \<open>G * B\<close> times.
\<close>

theorem UniversalKernel_calls_once_per_lane:
  "UniversalKernel func0 a bi A res numElements w = func0 a bi res A w
   \<and> launch_universal func0 bi A res numElements G B w
       = foldl (\<lambda>w' a. func0 a bi res A w') w (launch_lanes G B)
   \<and> length (launch_lanes G B) = G * B
   \<and> launch_universal (\<lambda>a' b' r' s' k. Suc k) bi A res numElements G B 0 = G * B"
proof -
  have "foldl (\<lambda>k a. Suc k) k0 xs = k0 + length xs" for k0 and xs :: "acc list"
    by (induction xs arbitrary: k0) auto
  then show ?thesis
    by (simp add: UniversalKernel_def launch_universal_def length_launch_lanes)
qed

text \<open>
  Once per launch holds only for a launch of a single lane: one block of two threads
  calls the function twice.
\<close>

theorem UniversalKernel_two_lanes_two_calls:
  "launch_universal (\<lambda>a' b' (r'::nat) (s'::nat) k. Suc k) 0 0 0 4 1 2 0 = 2"
  by (simp add: launch_universal_def UniversalKernel_def launch_lanes_def block_lanes_def upt_conv_Cons)

subsection \<open>C9: the only slot of the destination that is written\<close>

text \<open>
  Claim C9. Whatever lanes run the kernel, and for a whole launch, every slot of the
  destination other than \<open>block_index\<close> is left as it was; and a launch with a
  positive grid dimension returns, with the destination changed at \<open>block_index\<close> at
  most (changed there when the problem size and the block size are positive).
\<close>

theorem only_block_index_slot_written:
  "(ReduceKernel func bi source n lanes d = Some d' \<longrightarrow> j \<noteq> bi \<longrightarrow> d' j = d j)
   \<and> (launch func bi source n G B d = Some d'' \<longrightarrow> j \<noteq> bi \<longrightarrow> d'' j = d j)
   \<and> (0 < u32 G \<longrightarrow>
        (\<exists>r. launch func bi source n G B d = Some (if 0 < n \<and> 0 < B then d(bi := r) else d)))"
proof (intro conjI impI)
  assume "ReduceKernel func bi source n lanes d = Some d'" and "j \<noteq> bi"
  then show "d' j = d j"
    by (auto simp: ReduceKernel_block_result split: if_splits)
next
  assume "launch func bi source n G B d = Some d''" and "j \<noteq> bi"
  then show "d'' j = d j"
    unfolding launch_def by (rule launch_blocks_frame)
next
  assume G: "0 < u32 G"
  show "\<exists>r. launch func bi source n G B d = Some (if 0 < n \<and> 0 < B then d(bi := r) else d)"
  proof (cases "0 < n \<and> 0 < B")
    case True
    from G have "0 < G" by (cases G) (auto simp: u32_def)
    then have up: "[0..<G] = [0..<G - 1] @ [G - 1]"
      by (cases G) auto
    obtain r where r: "block_result func source n (block_lanes G B (G - 1)) = Some r"
      using block_result_returns[OF G] by blast
    have "launch_blocks func bi source n G B ([0..<G - 1] @ [G - 1]) d = Some (d(bi := r))"
      using True by (intro launch_blocks_last[OF G _ _ r]) auto
    then show ?thesis using True up by (auto simp: launch_def)
  next
    case False
    then have "launch func bi source n G B d = Some d"
      unfolding launch_def by (intro launch_blocks_noop[OF G]) auto
    with False show ?thesis by auto
  qed
qed

text \<open>
  The theorem at one block of one thread, one element, \<open>block_index = 3\<close> and slot 4:
  the block and the launch return, and slot 4 is as it was.
\<close>

theorem only_block_index_slot_written_witness:
  "(4::nat) \<noteq> 3 \<and> 0 < u32 1
   \<and> (\<exists>d'. ReduceKernel accumulate 3 (\<lambda>i. 7::nat) 1 (block_lanes 1 1 0) (\<lambda>j. Val 0) = Some d'
          \<and> d' 4 = Val 0)
   \<and> (\<exists>d''. launch accumulate 3 (\<lambda>i. 7::nat) 1 1 1 (\<lambda>j. Val 0) = Some d''
          \<and> d'' 4 = Val 0)"
proof -
  let ?d = "\<lambda>j::nat. Val (0::nat)"
  have h1: "(4::nat) \<noteq> 3" by simp
  have h2: "0 < u32 1" by (simp add: u32_def)
  obtain r0 where "block_result accumulate (\<lambda>i. 7::nat) 1 (block_lanes 1 1 0) = Some r0"
    using block_result_returns[OF h2] by blast
  then obtain d' where k: "ReduceKernel accumulate 3 (\<lambda>i. 7::nat) 1 (block_lanes 1 1 0) ?d = Some d'"
    by (simp add: ReduceKernel_block_result)
  obtain r where l: "launch accumulate 3 (\<lambda>i. 7::nat) 1 1 1 ?d = Some (?d(3 := r))"
    using only_block_index_slot_written
      [of accumulate 3 "\<lambda>i. 7::nat" 1 "[]" ?d ?d 4 1 1 ?d] h2
    by auto
  have "d' 4 = ?d 4 \<and> (?d(3 := r)) 4 = ?d 4"
    using only_block_index_slot_written
      [of accumulate 3 "\<lambda>i. 7::nat" 1 "block_lanes 1 1 0" ?d d' 4 1 1 "?d(3 := r)"] k l h1
    by blast
  then show ?thesis using h1 h2 k l by auto
qed

subsection \<open>C10: the block size is the constant 256\<close>

text \<open>
  Claim C10. The capacity of the shared array, the factor of the iterator's stride and
  the bounds of the tree fold are the constant 256; the thread extent of the launch
  enters none of them.
\<close>

theorem block_size_is_constant_256:
  "TBlockSize = 256
   \<and> length (allocVar :: 'r cheapArray) = 256
   \<and> stride (begin_iter a n) = gridDimension a * 256
   \<and> stride (begin_iter (a\<lparr>blockThreadExtent := B'\<rparr>) n) = stride (begin_iter a n)
   \<and> round_list = [(256,128),(128,64),(64,32),(32,16),(16,8),(8,4),(4,2),(2,1)]
   \<and> cond bI tI u n = (tI < u \<and> tI + u < 256 \<and> bI * 256 + tI + u < n \<and> tI < n)
   \<and> tree_fold n (map (\<lambda>a. a\<lparr>blockThreadExtent := B'\<rparr>) lanes) st = tree_fold n lanes st"
proof -
  have "foldl (\<lambda>sd a. tree_step (blockIndex a) (threadIndex a) u n sd) sd
          (map (\<lambda>a. a\<lparr>blockThreadExtent := B'\<rparr>) lanes)
      = foldl (\<lambda>sd a. tree_step (blockIndex a) (threadIndex a) u n sd) sd lanes" for u and sd :: "'a cheapArray"
    by (induction lanes arbitrary: sd) (auto simp: blockIndex_def threadIndex_def)
  then have "tree_round n (map (\<lambda>a. a\<lparr>blockThreadExtent := B'\<rparr>) lanes) u s = tree_round n lanes u s"
    for u and s :: "'a block_state"
    by (simp add: tree_round_def)
  then show ?thesis
    by (simp add: TBlockSize_def allocVar_def begin_iter_def gridDimension_def round_list_eq
        cond_def tree_fold_unrolled)
qed

end
